theory Spec2Isabelle
  imports Main
begin

section \<open>The host's collaborators\<close>

text \<open>
  The source file \<^verbatim>\<open>extension/definition_list.go\<close> holds two block parsers
  (\<^verbatim>\<open>definitionListParser\<close>, \<^verbatim>\<open>definitionDescriptionParser\<close>) and one node
  renderer (\<^verbatim>\<open>DefinitionListHTMLRenderer\<close>). Everything they call (the node tree,
  the line reader, the indentation helpers, the output writer) lives in other packages;
  this section gives those collaborators the shape the specification describes.
  Go's \<^verbatim>\<open>int\<close> is modelled as \<^typ>\<open>int\<close>: every integer here is a column or a
  byte offset of one line, far from the 64-bit range.
\<close>

subsection \<open>Panics\<close>

text \<open>
  A Go run-time panic is a value: an index out of range, a field read or a method call
  through a nil pointer, and a type assertion without the comma-ok form that fails.
\<close>

datatype panic = IndexOutOfRange | NilDereference | InterfaceConversion

subsection \<open>Nodes\<close>

text \<open>
  Modelled from the spec: the node tree of the host (package \<^verbatim>\<open>ast\<close>) and the three
  node types of \<^verbatim>\<open>extension/ast\<close>. A node has a kind, an optional parent, an ordered
  sequence of children, its lines (segments of the source) and the flag saying that blank
  lines precede it. A DefinitionList carries \<^verbatim>\<open>Offset\<close> and \<^verbatim>\<open>TemporaryParagraph\<close>,
  a DefinitionDescription carries \<^verbatim>\<open>IsTight\<close>. Nodes are shared and mutated in place,
  so they live in a store and are named by references; a nil pointer is \<^term>\<open>None\<close>.
\<close>

type_synonym ref = nat

record Segment =
  Start :: int
  Stop :: int
  Padding :: int

datatype Payload =
    Document
  | Paragraph
  | TextBlock
  | DefinitionList int "ref option"
  | DefinitionTerm
  | DefinitionDescription bool
  | OtherBlock

datatype NodeKind =
    KindDocument
  | KindParagraph
  | KindTextBlock
  | KindDefinitionList
  | KindDefinitionTerm
  | KindDefinitionDescription
  | KindOther

record Node =
  payload :: Payload
  Parent :: "ref option"
  Children :: "ref list"
  Lines :: "Segment list"
  HasBlankPreviousLines :: bool

type_synonym Heap = "Node list"

fun Kind :: "Node \<Rightarrow> NodeKind" where
  "Kind n = (case payload n of
       Document \<Rightarrow> KindDocument
     | Paragraph \<Rightarrow> KindParagraph
     | TextBlock \<Rightarrow> KindTextBlock
     | DefinitionList _ _ \<Rightarrow> KindDefinitionList
     | DefinitionTerm \<Rightarrow> KindDefinitionTerm
     | DefinitionDescription _ \<Rightarrow> KindDefinitionDescription
     | OtherBlock \<Rightarrow> KindOther)"

text \<open>
  Modelled from the spec: the constructors of the nodes (\<^verbatim>\<open>ast.NewDefinitionList\<close>,
  \<^verbatim>\<open>ast.NewDefinitionTerm\<close>, \<^verbatim>\<open>ast.NewDefinitionDescription\<close>,
  \<^verbatim>\<open>ast.NewTextBlock\<close>). A freshly constructed node has no parent, no children
  and no lines; a new list takes its offset and its pending paragraph, and a new
  description is not tight.
\<close>

definition NewNode :: "Payload \<Rightarrow> Node" where
  "NewNode p = \<lparr>payload = p, Parent = None, Children = [], Lines = [],
                HasBlankPreviousLines = False\<rparr>"

definition NewDefinitionList :: "int \<Rightarrow> ref option \<Rightarrow> Node" where
  "NewDefinitionList offset para = NewNode (DefinitionList offset para)"

definition NewDefinitionTerm :: Node where
  "NewDefinitionTerm = NewNode DefinitionTerm"

definition NewDefinitionDescription :: Node where
  "NewDefinitionDescription = NewNode (DefinitionDescription False)"

definition NewTextBlock :: Node where
  "NewTextBlock = NewNode TextBlock"

text \<open>Allocation: the new node gets the next reference of the store.\<close>

definition alloc :: "Heap \<Rightarrow> Node \<Rightarrow> Heap \<times> ref" where
  "alloc h n = (h @ [n], length h)"

text \<open>
  Modelled from the spec: the tree operations of the host's base node. The children of a
  node are an ordered sequence; the siblings of a node are its neighbours in the sequence
  of its parent, so a node without a parent has none. \<^verbatim>\<open>RemoveChild\<close> detaches a
  child entirely, \<^verbatim>\<open>AppendChild\<close> first detaches the node from wherever it is, and
  \<^verbatim>\<open>ReplaceChild\<close> puts the new node at the place of the old one and detaches the
  old one. A node that is not a child of \<^verbatim>\<open>self\<close> is left alone.
\<close>

definition FirstChild :: "Heap \<Rightarrow> ref \<Rightarrow> ref option" where
  "FirstChild h n = (case Children (h ! n) of [] \<Rightarrow> None | c # _ \<Rightarrow> Some c)"

definition LastChild :: "Heap \<Rightarrow> ref \<Rightarrow> ref option" where
  "LastChild h n = (if Children (h ! n) = [] then None else Some (last (Children (h ! n))))"

fun successor :: "ref \<Rightarrow> ref list \<Rightarrow> ref option" where
  "successor x [] = None"
| "successor x [y] = None"
| "successor x (y # z # zs) = (if x = y then Some z else successor x (z # zs))"

fun predecessor :: "ref \<Rightarrow> ref list \<Rightarrow> ref option" where
  "predecessor x [] = None"
| "predecessor x [y] = None"
| "predecessor x (y # z # zs) =
     (if x = y then None else if x = z then Some y else predecessor x (z # zs))"

definition NextSibling :: "Heap \<Rightarrow> ref \<Rightarrow> ref option" where
  "NextSibling h n =
     (case Parent (h ! n) of None \<Rightarrow> None | Some p \<Rightarrow> successor n (Children (h ! p)))"

definition PreviousSibling :: "Heap \<Rightarrow> ref \<Rightarrow> ref option" where
  "PreviousSibling h n =
     (case Parent (h ! n) of None \<Rightarrow> None | Some p \<Rightarrow> predecessor n (Children (h ! p)))"

definition RemoveChild :: "Heap \<Rightarrow> ref \<Rightarrow> ref \<Rightarrow> Heap" where
  "RemoveChild h self v =
     (if Parent (h ! v) \<noteq> Some self then h
      else let h1 = h[self := (h ! self)\<lparr>Children := removeAll v (Children (h ! self))\<rparr>]
           in h1[v := (h1 ! v)\<lparr>Parent := None\<rparr>])"

definition AppendChild :: "Heap \<Rightarrow> ref \<Rightarrow> ref \<Rightarrow> Heap" where
  "AppendChild h self v =
     (let h1 = (case Parent (h ! v) of None \<Rightarrow> h | Some p \<Rightarrow> RemoveChild h p v);
          h2 = h1[self := (h1 ! self)\<lparr>Children := Children (h1 ! self) @ [v]\<rparr>]
      in h2[v := (h2 ! v)\<lparr>Parent := Some self\<rparr>])"

definition ReplaceChild :: "Heap \<Rightarrow> ref \<Rightarrow> ref \<Rightarrow> ref \<Rightarrow> Heap" where
  "ReplaceChild h self v1 insertee =
     (if Parent (h ! v1) \<noteq> Some self then h
      else let h1 = (case Parent (h ! insertee) of None \<Rightarrow> h
                     | Some p \<Rightarrow> RemoveChild h p insertee);
               h2 = h1[self := (h1 ! self)\<lparr>Children :=
                      map (\<lambda>c. if c = v1 then insertee else c) (Children (h1 ! self))\<rparr>];
               h3 = h2[insertee := (h2 ! insertee)\<lparr>Parent := Some self\<rparr>]
           in h3[v1 := (h3 ! v1)\<lparr>Parent := None\<rparr>])"

definition SetLines :: "Heap \<Rightarrow> ref \<Rightarrow> Segment list \<Rightarrow> Heap" where
  "SetLines h n ls = h[n := (h ! n)\<lparr>Lines := ls\<rparr>]"

text \<open>
  Go's type assertion with the comma-ok form, on an interface value that may be nil:
  the reference when the node has the asked type, nil otherwise.
\<close>

definition asParagraph :: "Heap \<Rightarrow> ref option \<Rightarrow> ref option" where
  "asParagraph h r =
     (case r of None \<Rightarrow> None
      | Some n \<Rightarrow> (if payload (h ! n) = Paragraph then Some n else None))"

definition asDefinitionList :: "Heap \<Rightarrow> ref option \<Rightarrow> ref option" where
  "asDefinitionList h r =
     (case r of None \<Rightarrow> None
      | Some n \<Rightarrow> (if Kind (h ! n) = KindDefinitionList then Some n else None))"

text \<open>Writing one field of a node that the code holds by a typed pointer.\<close>

definition set_Offset :: "Heap \<Rightarrow> ref \<Rightarrow> int \<Rightarrow> Heap" where
  "set_Offset h l w =
     h[l := (h ! l)\<lparr>payload := (case payload (h ! l) of
                                   DefinitionList _ para \<Rightarrow> DefinitionList w para
                                 | p \<Rightarrow> p)\<rparr>]"

definition set_TemporaryParagraph :: "Heap \<Rightarrow> ref \<Rightarrow> ref option \<Rightarrow> Heap" where
  "set_TemporaryParagraph h l para =
     h[l := (h ! l)\<lparr>payload := (case payload (h ! l) of
                                   DefinitionList off _ \<Rightarrow> DefinitionList off para
                                 | p \<Rightarrow> p)\<rparr>]"

definition set_IsTight :: "Heap \<Rightarrow> ref \<Rightarrow> bool \<Rightarrow> Heap" where
  "set_IsTight h d t =
     h[d := (h ! d)\<lparr>payload := (case payload (h ! d) of
                                   DefinitionDescription _ \<Rightarrow> DefinitionDescription t
                                 | p \<Rightarrow> p)\<rparr>]"

subsection \<open>Indentation\<close>

text \<open>
  Modelled from the spec: the Indentation Analyzer (\<^verbatim>\<open>util.TabWidth\<close>,
  \<^verbatim>\<open>util.IndentWidth\<close>, \<^verbatim>\<open>util.IndentPosition\<close>, \<^verbatim>\<open>util.IsBlank\<close>).
  \<^verbatim>\<open>IndentWidth\<close> returns the number of columns of leading blank space, a tab
  reaching the next multiple of four, together with the number of bytes read.
  \<^verbatim>\<open>IndentPosition\<close> returns the byte offset at which a target width is reached and
  the columns by which a tab overshoots it; when the leading blank space is narrower
  than the target there is no such offset, and the answer is \<open>(-1, -1)\<close>.
  Columns are not negative, so \<open>mod\<close> is Go's \<^verbatim>\<open>%\<close> here.
\<close>

definition TabWidth :: "int \<Rightarrow> int" where
  "TabWidth currentPos = 4 - currentPos mod 4"

fun IndentWidth_from :: "string \<Rightarrow> int \<Rightarrow> int \<Rightarrow> int \<Rightarrow> int \<times> int" where
  "IndentWidth_from [] currentPos width pos = (width, pos)"
| "IndentWidth_from (b # bs) currentPos width pos =
     (if b = CHR '' '' then IndentWidth_from bs currentPos (width + 1) (pos + 1)
      else if b = CHR 0x09 then
        IndentWidth_from bs currentPos (width + TabWidth (currentPos + width)) (pos + 1)
      else (width, pos))"

definition IndentWidth :: "string \<Rightarrow> int \<Rightarrow> int \<times> int" where
  "IndentWidth bs currentPos = IndentWidth_from bs currentPos 0 0"

fun IndentPosition_from :: "string \<Rightarrow> int \<Rightarrow> int \<Rightarrow> int \<Rightarrow> int \<Rightarrow> int \<times> int" where
  "IndentPosition_from [] currentPos width w i = (i, w)"
| "IndentPosition_from (b # bs) currentPos width w i =
     (if b = CHR 0x09 \<and> w < width then
        IndentPosition_from bs currentPos width (w + TabWidth (currentPos + w)) (i + 1)
      else if b = CHR '' '' \<and> w < width then
        IndentPosition_from bs currentPos width (w + 1) (i + 1)
      else (i, w))"

definition IndentPosition :: "string \<Rightarrow> int \<Rightarrow> int \<Rightarrow> int \<times> int" where
  "IndentPosition bs currentPos width =
     (if width = 0 then (0, 0)
      else let (i, w) = IndentPosition_from bs currentPos width 0 0
           in if w \<ge> width then (i, w - width) else (- 1, - 1))"

definition IsSpace :: "char \<Rightarrow> bool" where
  "IsSpace c \<longleftrightarrow> c \<in> {CHR '' '', CHR 0x09, CHR 0x0A, CHR 0x0D, CHR 0x0B, CHR 0x0C}"

definition IsBlank :: "string \<Rightarrow> bool" where
  "IsBlank bs = list_all IsSpace bs"

subsection \<open>Segments of the source\<close>

text \<open>
  Modelled from the spec: a line of a node is a segment of the source, and
  \<^verbatim>\<open>TrimRightSpace\<close> gives the segment of the same line with trailing whitespace
  trimmed (an all-blank line becomes the empty segment at its start). A segment of a
  node lies inside the source; the text of a segment that does not is cut at the end
  of the source here.
\<close>

definition Value :: "Segment \<Rightarrow> string \<Rightarrow> string" where
  "Value t buffer =
     replicate (nat (Padding t)) CHR '' '' @
     take (nat (Stop t - Start t)) (drop (nat (Start t)) buffer)"

definition TrimRightSpaceLength :: "string \<Rightarrow> int" where
  "TrimRightSpaceLength v = int (length (takeWhile IsSpace (rev v)))"

definition TrimRightSpace :: "Segment \<Rightarrow> string \<Rightarrow> Segment" where
  "TrimRightSpace t buffer =
     (let v = take (nat (Stop t - Start t)) (drop (nat (Start t)) buffer);
          l = TrimRightSpaceLength v
      in if l = int (length v) then \<lparr>Start = Start t, Stop = Start t, Padding = 0\<rparr>
         else \<lparr>Start = Start t, Stop = Stop t - l, Padding = Padding t\<rparr>)"

subsection \<open>Reader, parser context, parser states\<close>

text \<open>
  Modelled from the spec: the line reader (\<^verbatim>\<open>text.Reader\<close>) answers with the rest of
  the current line (\<^verbatim>\<open>PeekLine\<close>), the column of its cursor (\<^verbatim>\<open>LineOffset\<close>) and
  the source; these are the answers at the moment a hook is entered. Moving the cursor
  is the business of the host, so the reader keeps the
  \<^verbatim>\<open>AdvanceAndSetPadding(n, padding)\<close> calls it received, in order.
\<close>

record Reader =
  Source :: string
  PeekLine :: string
  LineOffset :: int
  Advanced :: "(int \<times> int) list"

definition AdvanceAndSetPadding :: "Reader \<Rightarrow> int \<Rightarrow> int \<Rightarrow> Reader" where
  "AdvanceAndSetPadding reader n padding =
     reader\<lparr>Advanced := Advanced reader @ [(n, padding)]\<rparr>"

record Context =
  BlockOffset :: int

text \<open>
  Modelled from the spec: a parser state is a set of flags, and Go's \<^verbatim>\<open>|\<close> on
  states is the union.
\<close>

datatype StateFlag = Continue | Close | HasChildren | NoChildren

type_synonym State = "StateFlag set"

section \<open>The list parser\<close>

text \<open>
  \<^verbatim>\<open>definitionListParser.Open\<close>. The hook reads the reader and the context and writes
  the store; it returns the store, the node (nil is \<^term>\<open>None\<close>) and the state.
  \<^verbatim>\<open>line[pos]\<close> panics when \<^verbatim>\<open>pos\<close> is not an index of the line.
  \<^verbatim>\<open>Open_Offset\<close> is lines 41 to 44 of the source: the width after the marker,
  replaced by 5 when it is 8 or more, plus the position after the marker.
\<close>

type_synonym open_result = "panic + (Heap \<times> ref option \<times> State)"

definition Open_Offset :: "int \<Rightarrow> int \<Rightarrow> int" where
  "Open_Offset w pos = (let w = (if w \<ge> 8 then 5 else w) in w + (pos + 1))"

definition definitionListParser_Open ::
  "Heap \<Rightarrow> ref \<Rightarrow> Reader \<Rightarrow> Context \<Rightarrow> open_result" where
  "definitionListParser_Open h parent reader pc =
     (if asDefinitionList h (Some parent) \<noteq> None then Inr (h, None, {NoChildren})
      else
        let line = PeekLine reader;
            pos = BlockOffset pc
        in if pos < 0 \<or> int (length line) \<le> pos then Inl IndexOutOfRange
           else if line ! nat pos \<noteq> CHR '':'' then Inr (h, None, {NoChildren})
           else
             let last = LastChild h parent;
                 w = fst (IndentWidth (drop (nat (pos + 1)) line) (pos + 1))
             in if w < 1 then Inr (h, None, {NoChildren})
                else
                  let w = Open_Offset w pos
                  in (case asParagraph h last of
                        Some para \<Rightarrow>
                          (case asDefinitionList h (PreviousSibling h para) of
                             Some list \<Rightarrow>
                               let h = set_Offset h list w;
                                   h = set_TemporaryParagraph h list (Some para)
                               in Inr (h, Some list, {HasChildren})
                           | None \<Rightarrow>
                               let (h, list) = alloc h (NewDefinitionList w (Some para))
                               in Inr (h, Some list, {HasChildren}))
                      | None \<Rightarrow>
                          (case asDefinitionList h last of
                             Some list \<Rightarrow>
                               let h = set_Offset h list w;
                                   h = set_TemporaryParagraph h list None
                               in Inr (h, Some list, {HasChildren})
                           | None \<Rightarrow> Inr (h, None, {NoChildren}))))"

text \<open>
  \<^verbatim>\<open>definitionListParser.Continue\<close>. The assertion \<^verbatim>\<open>list, _ := node.(*ast.DefinitionList)\<close>
  has the comma-ok form, so on another node \<^verbatim>\<open>list\<close> is nil and the panic comes at
  \<^verbatim>\<open>list.Offset\<close>, after the test for a blank line.
\<close>

definition definitionListParser_Continue ::
  "Heap \<Rightarrow> ref \<Rightarrow> Reader \<Rightarrow> Context \<Rightarrow> panic + (Reader \<times> State)" where
  "definitionListParser_Continue h node reader pc =
     (let line = PeekLine reader
      in if IsBlank line then Inr (reader, {Continue} \<union> {HasChildren})
         else
           (case payload (h ! node) of
              DefinitionList Offset TemporaryParagraph \<Rightarrow>
                let w = fst (IndentWidth line (LineOffset reader))
                in if w < Offset then Inr (reader, {Close})
                   else
                     let (pos, padding) = IndentPosition line (LineOffset reader) Offset;
                         reader = AdvanceAndSetPadding reader pos padding
                     in Inr (reader, {Continue} \<union> {HasChildren})
            | _ \<Rightarrow> Inl NilDereference))"

definition definitionListParser_Close :: "Heap \<Rightarrow> ref \<Rightarrow> Reader \<Rightarrow> Context \<Rightarrow> Heap" where
  "definitionListParser_Close h node reader pc = h"

definition definitionListParser_CanInterruptParagraph :: bool where
  "definitionListParser_CanInterruptParagraph = True"

definition definitionListParser_CanAcceptIndentedLine :: bool where
  "definitionListParser_CanAcceptIndentedLine = False"

section \<open>The description parser\<close>

text \<open>
  The loop of \<^verbatim>\<open>definitionDescriptionParser.Open\<close> over the lines of the pending
  paragraph: one new term per line, holding the line trimmed on the right, appended
  to the list.
\<close>

fun Open_terms :: "Heap \<Rightarrow> ref \<Rightarrow> Segment list \<Rightarrow> string \<Rightarrow> Heap" where
  "Open_terms h list [] source = h"
| "Open_terms h list (segment # lines) source =
     (let (h, term) = alloc h NewDefinitionTerm;
          h = SetLines h term (Lines (h ! term) @ [TrimRightSpace segment source]);
          h = AppendChild h list term
      in Open_terms h list lines source)"

text \<open>
  \<^verbatim>\<open>definitionDescriptionParser.Open\<close>. On a parent of another type \<^verbatim>\<open>list\<close> is nil,
  and \<^verbatim>\<open>list.TemporaryParagraph\<close> panics; \<^verbatim>\<open>para.Parent().RemoveChild(...)\<close> panics
  when the paragraph has no parent. \<^verbatim>\<open>list.Offset\<close> is read at line 125; nothing
  before it in this function writes that field, so the model names it once.
\<close>

type_synonym description_open_result = "panic + (Heap \<times> Reader \<times> ref option \<times> State)"

definition Open_finish ::
  "Heap \<Rightarrow> Reader \<Rightarrow> string \<Rightarrow> int \<Rightarrow> int \<Rightarrow> description_open_result" where
  "Open_finish h reader line pos Offset =
     (let (cpos, padding) =
            IndentPosition (drop (nat (pos + 1)) line) (pos + 1) (Offset - pos - 1);
          reader = AdvanceAndSetPadding reader cpos padding;
          (h, description) = alloc h NewDefinitionDescription
      in Inr (h, reader, Some description, {HasChildren}))"

definition definitionDescriptionParser_Open ::
  "Heap \<Rightarrow> ref \<Rightarrow> Reader \<Rightarrow> Context \<Rightarrow> description_open_result" where
  "definitionDescriptionParser_Open h parent reader pc =
     (let line = PeekLine reader;
          pos = BlockOffset pc
      in if pos < 0 \<or> int (length line) \<le> pos then Inl IndexOutOfRange
         else if line ! nat pos \<noteq> CHR '':'' then Inr (h, reader, None, {NoChildren})
         else
           (case payload (h ! parent) of
              DefinitionList Offset para \<Rightarrow>
                let h = set_TemporaryParagraph h parent None
                in (case para of
                      None \<Rightarrow> Open_finish h reader line pos Offset
                    | Some p \<Rightarrow>
                        let h = Open_terms h parent (Lines (h ! p)) (Source reader)
                        in (case Parent (h ! p) of
                              None \<Rightarrow> Inl NilDereference
                            | Some q \<Rightarrow>
                                Open_finish (RemoveChild h q p) reader line pos Offset))
            | _ \<Rightarrow> Inl NilDereference))"

definition definitionDescriptionParser_Continue ::
  "Heap \<Rightarrow> ref \<Rightarrow> Reader \<Rightarrow> Context \<Rightarrow> State" where
  "definitionDescriptionParser_Continue h node reader pc = {Continue} \<union> {HasChildren}"

text \<open>
  The body of the loop of \<^verbatim>\<open>definitionDescriptionParser.Close\<close> for a child that
  is a paragraph (lines 144 to 146): a new text block gets the lines of the paragraph
  and replaces it among the children of the description. The text block shares the
  lines of the paragraph; the model copies them.
\<close>

definition Close_replace :: "Heap \<Rightarrow> ref \<Rightarrow> ref \<Rightarrow> Heap" where
  "Close_replace h desc paragraph =
     (let (h, textBlock) = alloc h NewTextBlock;
          h = SetLines h textBlock (Lines (h ! paragraph))
      in ReplaceChild h desc paragraph textBlock)"

text \<open>
  The loop itself:
  \<^verbatim>\<open>for gc := desc.FirstChild(); gc != nil; gc = gc.NextSibling()\<close>. The step
  \<^verbatim>\<open>gc.NextSibling()\<close> is taken from the same \<^verbatim>\<open>gc\<close>, on the store as the body
  left it. The loop follows links of the store, so it is a partial function:
  \<^term>\<open>None\<close> is a loop that does not end.
\<close>

partial_function (option) Close_loop :: "Heap \<Rightarrow> ref \<Rightarrow> ref option \<Rightarrow> Heap option" where
  "Close_loop h desc gc =
     (case gc of
        None \<Rightarrow> Some h
      | Some g \<Rightarrow>
          (case asParagraph h (Some g) of
             Some paragraph \<Rightarrow>
               let h = Close_replace h desc paragraph
               in Close_loop h desc (NextSibling h g)
           | None \<Rightarrow> Close_loop h desc (NextSibling h g)))"

declare Close_loop.simps [code]

text \<open>
  \<^verbatim>\<open>definitionDescriptionParser.Close\<close>. \<^verbatim>\<open>desc := node.(*ast.DefinitionDescription)\<close>
  has no comma-ok form and panics on a node of another type.
\<close>

definition definitionDescriptionParser_Close ::
  "Heap \<Rightarrow> ref \<Rightarrow> Reader \<Rightarrow> Context \<Rightarrow> (panic + Heap) option" where
  "definitionDescriptionParser_Close h node reader pc =
     (case payload (h ! node) of
        DefinitionDescription _ \<Rightarrow>
          let IsTight = \<not> HasBlankPreviousLines (h ! node);
              h = set_IsTight h node IsTight
          in if IsTight then map_option Inr (Close_loop h node (FirstChild h node))
             else Some (Inr h)
      | _ \<Rightarrow> Some (Inl InterfaceConversion))"

definition definitionDescriptionParser_CanInterruptParagraph :: bool where
  "definitionDescriptionParser_CanInterruptParagraph = True"

definition definitionDescriptionParser_CanAcceptIndentedLine :: bool where
  "definitionDescriptionParser_CanAcceptIndentedLine = False"

section \<open>The renderer\<close>

text \<open>
  Modelled from the spec: the walk actions of the host (\<^verbatim>\<open>ast.WalkStatus\<close>); a
  render function answers with one of them.
\<close>

datatype WalkStatus = WalkStop | WalkSkipChildren | WalkContinue

text \<open>
  Modelled from the spec: the output writer (\<^verbatim>\<open>util.BufWriter\<close>) is the text written
  so far, and \<^verbatim>\<open>WriteString\<close> appends to it.
\<close>

type_synonym BufWriter = string

definition WriteString :: "BufWriter \<Rightarrow> string \<Rightarrow> BufWriter" where
  "WriteString w s = w @ s"

text \<open>
  A render function returns the writer, the walk status and the error
  (\<^term>\<open>None\<close> is Go's nil error), or panics.
\<close>

type_synonym render_result = "panic + (BufWriter \<times> WalkStatus \<times> string option)"

definition renderDefinitionList ::
  "BufWriter \<Rightarrow> string \<Rightarrow> Node \<Rightarrow> bool \<Rightarrow> render_result" where
  "renderDefinitionList w source n entering =
     (let w = (if entering then WriteString w ''<dl>\<newline>''
               else WriteString w ''</dl>\<newline>'')
      in Inr (w, WalkContinue, None))"

definition renderDefinitionTerm ::
  "BufWriter \<Rightarrow> string \<Rightarrow> Node \<Rightarrow> bool \<Rightarrow> render_result" where
  "renderDefinitionTerm w source n entering =
     (let w = (if entering then WriteString w ''<dt>''
               else WriteString w ''</dt>\<newline>'')
      in Inr (w, WalkContinue, None))"

text \<open>
  \<^verbatim>\<open>n := node.(*ast.DefinitionDescription)\<close> has no comma-ok form: on a node of
  another type it panics. The assertion is made on entering only.
\<close>

definition renderDefinitionDescription ::
  "BufWriter \<Rightarrow> string \<Rightarrow> Node \<Rightarrow> bool \<Rightarrow> render_result" where
  "renderDefinitionDescription w source node entering =
     (if entering then
        (case payload node of
           DefinitionDescription IsTight \<Rightarrow>
             (if IsTight then Inr (WriteString w ''<dd>'', WalkContinue, None)
              else Inr (WriteString w ''<dd>\<newline>'',
                        WalkContinue, None))
         | _ \<Rightarrow> Inl InterfaceConversion)
      else Inr (WriteString w ''</dd>\<newline>'',
                WalkContinue, None))"

text \<open>
  \<^verbatim>\<open>RegisterFuncs\<close>: the registry maps a node kind to its render function; the three
  entries below are the only ones this renderer registers.
\<close>

definition RegisterFuncs ::
  "NodeKind \<Rightarrow> (BufWriter \<Rightarrow> string \<Rightarrow> Node \<Rightarrow> bool \<Rightarrow> render_result) option" where
  "RegisterFuncs k =
     (if k = KindDefinitionList then Some renderDefinitionList
      else if k = KindDefinitionTerm then Some renderDefinitionTerm
      else if k = KindDefinitionDescription then Some renderDefinitionDescription
      else None)"

text \<open>
  Modelled from the spec: the walk of the host visits the nodes of the finished tree and
  calls, for every node it enters or leaves, the function registered for the kind of the
  node. The visits are given as the list of nodes with their entering flag, in the order
  of the walk; a node of a kind that this renderer did not register is the business of
  another renderer and writes nothing here.
\<close>

fun render_events :: "BufWriter \<Rightarrow> string \<Rightarrow> (Node \<times> bool) list \<Rightarrow> panic + BufWriter" where
  "render_events w source [] = Inr w"
| "render_events w source ((n, entering) # evs) =
     (case RegisterFuncs (Kind n) of
        None \<Rightarrow> render_events w source evs
      | Some f \<Rightarrow>
          (case f w source n entering of
             Inl p \<Rightarrow> Inl p
           | Inr (w', status, err) \<Rightarrow> render_events w' source evs))"

section \<open>Well-formed stores and example stores\<close>

text \<open>
  A Go pointer that is not nil points to a node. In the store this is a property: every
  parent and every child named by a node of the store is a reference of the store.
\<close>

definition valid_refs :: "Heap \<Rightarrow> bool" where
  "valid_refs h =
     list_all (\<lambda>n. list_all (\<lambda>c. c < length h) (Children n) \<and>
                   (case Parent n of None \<Rightarrow> True | Some p \<Rightarrow> p < length h)) h"

text \<open>
  Example stores: a document whose only child is the paragraph \<open>term\<close>; a document
  holding a definition list followed by that paragraph; a document whose last child is a
  definition list. The reader is on the line \<open>:   text\<close> of the source, and the first
  byte that is not blank is at offset 0.
\<close>

definition doc_term :: Heap where
  "doc_term = [(NewNode Document)\<lparr>Children := [1]\<rparr>,
               (NewNode Paragraph)\<lparr>Parent := Some 0,
                  Lines := [\<lparr>Start = 0, Stop = 5, Padding = 0\<rparr>]\<rparr>]"

definition doc_list_term :: Heap where
  "doc_list_term = [(NewNode Document)\<lparr>Children := [1, 2]\<rparr>,
                    (NewDefinitionList 2 None)\<lparr>Parent := Some 0\<rparr>,
                    (NewNode Paragraph)\<lparr>Parent := Some 0,
                       Lines := [\<lparr>Start = 0, Stop = 5, Padding = 0\<rparr>]\<rparr>]"

definition doc_list :: Heap where
  "doc_list = [(NewNode Document)\<lparr>Children := [1]\<rparr>,
               (NewDefinitionList 2 None)\<lparr>Parent := Some 0\<rparr>]"

text \<open>
  The store after the list parser opened a list on \<open>doc_term\<close> and the host
  appended it to the document: the paragraph is pending in the list.
\<close>

definition doc_term_open :: Heap where
  "doc_term_open = [(NewNode Document)\<lparr>Children := [1, 2]\<rparr>,
                    (NewNode Paragraph)\<lparr>Parent := Some 0,
                       Lines := [\<lparr>Start = 0, Stop = 5, Padding = 0\<rparr>]\<rparr>,
                    (NewDefinitionList 4 (Some 1))\<lparr>Parent := Some 0\<rparr>]"

text \<open>
  A description with two paragraphs, as the host builds it for the source
  \<open>term\n: p1\n\n  p2\n\<close>: no blank line precedes the description, and the blank
  line inside it separates its two paragraphs. The reader has reached the end of the
  input when the description is closed. Two more readers: one on a blank line, one on
  a line without a marker.
\<close>

definition two_paragraphs :: Heap where
  "two_paragraphs =
     [(NewNode (DefinitionDescription False))\<lparr>Children := [1, 2]\<rparr>,
      (NewNode Paragraph)\<lparr>Parent := Some 0,
         Lines := [\<lparr>Start = 7, Stop = 9, Padding = 0\<rparr>]\<rparr>,
      (NewNode Paragraph)\<lparr>Parent := Some 0,
         Lines := [\<lparr>Start = 13, Stop = 15, Padding = 0\<rparr>],
         HasBlankPreviousLines := True\<rparr>]"

definition end_of_input :: Reader where
  "end_of_input = \<lparr>Source = ''term\<newline>: p1\<newline>\<newline>  p2\<newline>'', PeekLine = [],
                    LineOffset = 0, Advanced = []\<rparr>"

definition blank_line :: Reader where
  "blank_line = \<lparr>Source = ''term\<newline>\<newline>'', PeekLine = ''\<newline>'',
                  LineOffset = 0, Advanced = []\<rparr>"

definition plain_line :: Reader where
  "plain_line = \<lparr>Source = ''term\<newline>text\<newline>'', PeekLine = ''text\<newline>'',
                  LineOffset = 0, Advanced = []\<rparr>"

definition marker_line :: Reader where
  "marker_line = \<lparr>Source = ''term\<newline>:   text\<newline>'', PeekLine = '':   text\<newline>'',
                   LineOffset = 0, Advanced = []\<rparr>"

definition at_column_0 :: Context where
  "at_column_0 = \<lparr>BlockOffset = 0\<rparr>"

section \<open>Properties of the renderer\<close>

text \<open>
  C8. For every node and every call, the three registered render functions write
  exactly one fixed string and return \<open>WalkContinue\<close> with a nil error: the list
  writes \<open><dl>\n\<close> on entering and \<open></dl>\n\<close> on leaving, the term \<open><dt>\<close>
  and \<open></dt>\n\<close>, the description \<open><dd>\<close> on entering when its \<open>IsTight\<close>
  is true, \<open><dd>\n\<close> on entering when it is false, and \<open></dd>\n\<close> on leaving.
  The calls are those of the registry, which hands a node to the function registered
  for the kind of the node; for the list and the term function, and for the
  description function on leaving, the node does not matter at all.
\<close>

theorem render_functions_emit:
  "renderDefinitionList w source n True = Inr (w @ ''<dl>\<newline>'', WalkContinue, None) \<and>
   renderDefinitionList w source n False = Inr (w @ ''</dl>\<newline>'', WalkContinue, None) \<and>
   renderDefinitionTerm w source n True = Inr (w @ ''<dt>'', WalkContinue, None) \<and>
   renderDefinitionTerm w source n False = Inr (w @ ''</dt>\<newline>'', WalkContinue, None) \<and>
   (payload d = DefinitionDescription IsTight \<longrightarrow>
      renderDefinitionDescription w source d True =
        Inr (w @ (if IsTight then ''<dd>'' else ''<dd>\<newline>''), WalkContinue, None)) \<and>
   renderDefinitionDescription w source n False =
     Inr (w @ ''</dd>\<newline>'', WalkContinue, None) \<and>
   (RegisterFuncs (Kind n) = Some f \<longrightarrow>
      f w source n entering =
        Inr (w @ (case payload n of
                    DefinitionList off para \<Rightarrow>
                      if entering then ''<dl>\<newline>'' else ''</dl>\<newline>''
                  | DefinitionTerm \<Rightarrow>
                      if entering then ''<dt>'' else ''</dt>\<newline>''
                  | DefinitionDescription t \<Rightarrow>
                      if entering then (if t then ''<dd>'' else ''<dd>\<newline>'')
                      else ''</dd>\<newline>''
                  | _ \<Rightarrow> []),
             WalkContinue, None))"
proof -
  have "RegisterFuncs (Kind n) = Some f \<longrightarrow>
      f w source n entering =
        Inr (w @ (case payload n of
                    DefinitionList off para \<Rightarrow>
                      if entering then ''<dl>\<newline>'' else ''</dl>\<newline>''
                  | DefinitionTerm \<Rightarrow>
                      if entering then ''<dt>'' else ''</dt>\<newline>''
                  | DefinitionDescription t \<Rightarrow>
                      if entering then (if t then ''<dd>'' else ''<dd>\<newline>'')
                      else ''</dd>\<newline>''
                  | _ \<Rightarrow> []),
             WalkContinue, None)"
    by (cases "payload n")
      (auto simp: RegisterFuncs_def renderDefinitionList_def renderDefinitionTerm_def
        renderDefinitionDescription_def WriteString_def)
  then show ?thesis
    by (simp add: renderDefinitionList_def renderDefinitionTerm_def
        renderDefinitionDescription_def WriteString_def)
qed

theorem render_functions_emit_witness:
  "renderDefinitionDescription ''x'' ''s'' (NewNode (DefinitionDescription True)) True =
     Inr (''x<dd>'', WalkContinue, None) \<and>
   renderDefinitionDescription ''x'' ''s'' (NewNode (DefinitionDescription False)) True =
     Inr (''x<dd>\<newline>'', WalkContinue, None) \<and>
   renderDefinitionList ''x'' ''s'' (NewNode Paragraph) True =
     Inr (''x<dl>\<newline>'', WalkContinue, None) \<and>
   renderDefinitionDescription ''x'' ''s'' (NewNode (DefinitionDescription True)) False =
     Inr (''x</dd>\<newline>'', WalkContinue, None)"
proof -
  have r: "RegisterFuncs (Kind (NewNode (DefinitionDescription True))) =
           Some renderDefinitionDescription"
    by (simp add: RegisterFuncs_def NewNode_def)
  have p: "payload (NewNode (DefinitionDescription True)) = DefinitionDescription True"
    "payload (NewNode (DefinitionDescription False)) = DefinitionDescription False"
    by (simp_all add: NewNode_def)
  show ?thesis
    using render_functions_emit [of "''x''" "''s''" "NewNode Paragraph"
        "NewNode (DefinitionDescription True)" True]
      render_functions_emit [of "''x''" "''s''" "NewNode Paragraph"
        "NewNode (DefinitionDescription False)" False]
      render_functions_emit [of "''x''" "''s''" "NewNode (DefinitionDescription True)"
        "NewNode (DefinitionDescription True)" True renderDefinitionDescription False]
      r p
    by simp
qed

text \<open>
  What a registered function appends depends on the node and the entering flag only,
  not on what the writer holds nor on the source.
\<close>

lemma registered_emits:
  assumes "RegisterFuncs (Kind n) = Some f"
  shows "\<exists>s. \<forall>w source. f w source n entering = Inr (w @ s, WalkContinue, None)"
  using assms
  by (auto simp: RegisterFuncs_def renderDefinitionList_def renderDefinitionTerm_def
      renderDefinitionDescription_def WriteString_def split: if_splits Payload.splits)

lemma render_events_appends:
  "\<exists>out. \<forall>w source. render_events w source evs = Inr (w @ out)"
proof (induction evs)
  case Nil
  show ?case by simp
next
  case (Cons ev evs)
  obtain n entering where ev: "ev = (n, entering)" by (cases ev)
  from Cons obtain out where out: "\<And>w source. render_events w source evs = Inr (w @ out)"
    by blast
  show ?case
  proof (cases "RegisterFuncs (Kind n)")
    case None
    then show ?thesis using out ev by auto
  next
    case (Some f)
    from registered_emits [OF Some, of entering] obtain s
      where s: "\<And>w source. f w source n entering = Inr (w @ s, WalkContinue, None)" by blast
    have "\<forall>w source. render_events w source (ev # evs) = Inr (w @ (s @ out))"
      using Some s out ev by simp
    then show ?thesis by blast
  qed
qed

text \<open>
  C10. Rendering is deterministic over a finished tree: the registered functions, called
  over the same nodes in the same entering and leaving order, never panic and append one
  text that the visits alone determine, whatever the writer already holds and whatever
  the source is; so two runs over the same tree give the same bytes.
\<close>

theorem rendering_twice_identical:
  "(\<exists>out. \<forall>w source. render_events w source evs = Inr (w @ out)) \<and>
   render_events w source1 evs = render_events w source2 evs"
  using render_events_appends [of evs] by auto

theorem rendering_twice_identical_witness:
  "render_events [] ''a''
     [(NewNode (DefinitionList 2 None), True), (NewNode DefinitionTerm, True),
      (NewNode DefinitionTerm, False), (NewNode (DefinitionDescription True), True),
      (NewNode TextBlock, True), (NewNode (DefinitionDescription True), False),
      (NewNode (DefinitionList 2 None), False)] =
   render_events [] ''b''
     [(NewNode (DefinitionList 2 None), True), (NewNode DefinitionTerm, True),
      (NewNode DefinitionTerm, False), (NewNode (DefinitionDescription True), True),
      (NewNode TextBlock, True), (NewNode (DefinitionDescription True), False),
      (NewNode (DefinitionList 2 None), False)]"
  using rendering_twice_identical [of
      "[(NewNode (DefinitionList 2 None), True), (NewNode DefinitionTerm, True),
        (NewNode DefinitionTerm, False), (NewNode (DefinitionDescription True), True),
        (NewNode TextBlock, True), (NewNode (DefinitionDescription True), False),
        (NewNode (DefinitionList 2 None), False)]" "[]" "''a''" "''b''"]
  by blast

section \<open>Properties of the indentation helpers\<close>

lemma TabWidth_bounds: "1 \<le> TabWidth c \<and> TabWidth c \<le> 4"
  unfolding TabWidth_def
  using pos_mod_bound [of 4 c] pos_mod_sign [of 4 c] by linarith

lemma IndentPosition_from_stop:
  "\<not> w < width \<Longrightarrow> IndentPosition_from bs cp width w i = (i, w)"
  by (cases bs) auto

text \<open>
  The search stops after \<open>i' - i\<close> bytes, all of them blank, whose width is the width
  it returns; it overshoots the target by less than a tab, and it reaches the target
  whenever the leading blank space of the line does.
\<close>

lemma IndentPosition_from_exact:
  assumes "IndentPosition_from bs cp width w i = (i', w')"
  shows "i \<le> i' \<and> i' - i \<le> int (length bs) \<and> w \<le> w' \<and>
         IndentWidth_from (take (nat (i' - i)) bs) cp w p = (w', p + (i' - i)) \<and>
         (w \<le> width \<longrightarrow> w' < width + 4) \<and>
         (fst (IndentWidth_from bs cp w p) \<ge> width \<longrightarrow> w' \<ge> width)"
  using assms
proof (induction bs arbitrary: w i p)
  case Nil
  then show ?case by simp
next
  case (Cons b bs)
  have tw: "1 \<le> TabWidth (cp + w)" "TabWidth (cp + w) \<le> 4"
    using TabWidth_bounds by auto
  consider (tab) "b = CHR 0x09" "w < width" | (space) "b = CHR '' ''" "w < width"
    | (stop) "\<not> ((b = CHR 0x09 \<or> b = CHR '' '') \<and> w < width)" by blast
  then show ?case
  proof cases
    case tab
    with Cons.prems
    have r: "IndentPosition_from bs cp width (w + TabWidth (cp + w)) (i + 1) = (i', w')"
      by simp
    note ih = Cons.IH [OF r, of "p + 1"]
    have n: "nat (i' - i) = Suc (nat (i' - (i + 1)))" using ih by linarith
    have a: "IndentWidth_from (take (nat (i' - i)) (b # bs)) cp w p = (w', p + (i' - i))"
      unfolding n using ih tab by simp
    have b: "w' < width + 4"
    proof (cases "w + TabWidth (cp + w) \<le> width")
      case True
      then show ?thesis using ih by blast
    next
      case False
      then have "IndentPosition_from bs cp width (w + TabWidth (cp + w)) (i + 1) =
                   (i + 1, w + TabWidth (cp + w))"
        by (intro IndentPosition_from_stop) linarith
      with r have "w' = w + TabWidth (cp + w)" by simp
      then show ?thesis using tab tw by linarith
    qed
    have c: "fst (IndentWidth_from (b # bs) cp w p) \<ge> width \<longrightarrow> w' \<ge> width"
      using ih tab by simp
    show ?thesis using a b c ih tw by auto
  next
    case space
    with Cons.prems have r: "IndentPosition_from bs cp width (w + 1) (i + 1) = (i', w')"
      by simp
    note ih = Cons.IH [OF r, of "p + 1"]
    have n: "nat (i' - i) = Suc (nat (i' - (i + 1)))" using ih by linarith
    have a: "IndentWidth_from (take (nat (i' - i)) (b # bs)) cp w p = (w', p + (i' - i))"
      unfolding n using ih space by simp
    have b: "w' < width + 4" using ih space by linarith
    have c: "fst (IndentWidth_from (b # bs) cp w p) \<ge> width \<longrightarrow> w' \<ge> width"
      using ih space by simp
    show ?thesis using a b c ih by auto
  next
    case stop
    with Cons.prems have e: "i' = i" "w' = w" by auto
    show ?thesis using stop unfolding e by auto
  qed
qed

text \<open>
  When the leading blank space of a line is at least as wide as the target, the answer
  of \<open>IndentPosition\<close> is exact: the first \<open>pos\<close> bytes are blank and are as wide
  as the target plus the padding.
\<close>

lemma IndentPosition_exact:
  assumes "IndentPosition bs cp width = (pos, padding)"
    and "width \<le> fst (IndentWidth bs cp)"
  shows "0 \<le> pos \<and> pos \<le> int (length bs) \<and> 0 \<le> padding \<and>
         IndentWidth (take (nat pos) bs) cp = (width + padding, pos)"
proof (cases "width = 0")
  case True
  with assms show ?thesis by (simp add: IndentPosition_def IndentWidth_def)
next
  case False
  obtain i w where iw: "IndentPosition_from bs cp width 0 0 = (i, w)" by force
  note ex = IndentPosition_from_exact [OF iw, of 0]
  from ex assms(2) have "width \<le> w" by (simp add: IndentWidth_def)
  with assms(1) False iw have "pos = i" "padding = w - width"
    by (simp_all add: IndentPosition_def)
  with ex \<open>width \<le> w\<close> show ?thesis by (simp add: IndentWidth_def)
qed

section \<open>Properties of the list parser\<close>

text \<open>
  C3. \<open>definitionListParser.Continue\<close> on an open DefinitionList: on a blank line it
  returns \<open>Continue | HasChildren\<close> and leaves the reader alone; otherwise, when the
  indentation width of the line, counted from the column of the cursor, is less than the
  \<open>Offset\<close> of the list, it returns \<open>Close\<close>; otherwise it advances the reader, once,
  to the position and padding of the \<open>Offset\<close> column and returns
  \<open>Continue | HasChildren\<close>. That position is exact: the bytes before it are blank and
  are as wide as \<open>Offset\<close> plus the padding.
\<close>

theorem Continue_on_DefinitionList:
  assumes "payload (h ! node) = DefinitionList Offset para"
  shows "(IsBlank (PeekLine reader) \<longrightarrow>
            definitionListParser_Continue h node reader pc =
              Inr (reader, {Continue, HasChildren})) \<and>
         (\<not> IsBlank (PeekLine reader) \<and>
          fst (IndentWidth (PeekLine reader) (LineOffset reader)) < Offset \<longrightarrow>
            definitionListParser_Continue h node reader pc = Inr (reader, {Close})) \<and>
         (\<not> IsBlank (PeekLine reader) \<and>
          \<not> fst (IndentWidth (PeekLine reader) (LineOffset reader)) < Offset \<longrightarrow>
            (\<exists>pos padding.
               IndentPosition (PeekLine reader) (LineOffset reader) Offset = (pos, padding) \<and>
               definitionListParser_Continue h node reader pc =
                 Inr (reader\<lparr>Advanced := Advanced reader @ [(pos, padding)]\<rparr>,
                      {Continue, HasChildren}) \<and>
               0 \<le> pos \<and> pos \<le> int (length (PeekLine reader)) \<and> 0 \<le> padding \<and>
               IndentWidth (take (nat pos) (PeekLine reader)) (LineOffset reader) =
                 (Offset + padding, pos)))"
proof (intro conjI impI)
  assume "IsBlank (PeekLine reader)"
  then show "definitionListParser_Continue h node reader pc =
      Inr (reader, {Continue, HasChildren})"
    by (simp add: definitionListParser_Continue_def insert_commute)
next
  assume "\<not> IsBlank (PeekLine reader) \<and>
      fst (IndentWidth (PeekLine reader) (LineOffset reader)) < Offset"
  then show "definitionListParser_Continue h node reader pc = Inr (reader, {Close})"
    using assms by (simp add: definitionListParser_Continue_def)
next
  assume a: "\<not> IsBlank (PeekLine reader) \<and>
      \<not> fst (IndentWidth (PeekLine reader) (LineOffset reader)) < Offset"
  obtain pos padding
    where ip: "IndentPosition (PeekLine reader) (LineOffset reader) Offset = (pos, padding)"
    by force
  have w: "Offset \<le> fst (IndentWidth (PeekLine reader) (LineOffset reader))"
    using a by simp
  have "definitionListParser_Continue h node reader pc =
      Inr (reader\<lparr>Advanced := Advanced reader @ [(pos, padding)]\<rparr>, {Continue, HasChildren})"
    using assms a ip
    by (simp add: definitionListParser_Continue_def AdvanceAndSetPadding_def insert_commute)
  with ip IndentPosition_exact [OF ip w]
  show "\<exists>pos padding.
      IndentPosition (PeekLine reader) (LineOffset reader) Offset = (pos, padding) \<and>
      definitionListParser_Continue h node reader pc =
        Inr (reader\<lparr>Advanced := Advanced reader @ [(pos, padding)]\<rparr>,
             {Continue, HasChildren}) \<and>
      0 \<le> pos \<and> pos \<le> int (length (PeekLine reader)) \<and> 0 \<le> padding \<and>
      IndentWidth (take (nat pos) (PeekLine reader)) (LineOffset reader) =
        (Offset + padding, pos)"
    by blast
qed

theorem Continue_on_DefinitionList_witness:
  "definitionListParser_Continue [NewDefinitionList 2 None] 0
     \<lparr>Source = ''t\<newline>: d\<newline>   foo'', PeekLine = ''   foo'', LineOffset = 0, Advanced = []\<rparr>
     \<lparr>BlockOffset = 3\<rparr> =
   Inr (\<lparr>Source = ''t\<newline>: d\<newline>   foo'', PeekLine = ''   foo'', LineOffset = 0,
          Advanced = [(2, 0)]\<rparr>, {Continue, HasChildren}) \<and>
   definitionListParser_Continue [NewDefinitionList 2 None] 0
     \<lparr>Source = ''t\<newline>: d\<newline> foo'', PeekLine = '' foo'', LineOffset = 0, Advanced = []\<rparr>
     \<lparr>BlockOffset = 1\<rparr> =
   Inr (\<lparr>Source = ''t\<newline>: d\<newline> foo'', PeekLine = '' foo'', LineOffset = 0,
          Advanced = []\<rparr>, {Close}) \<and>
   definitionListParser_Continue [NewDefinitionList 2 None] 0
     \<lparr>Source = ''t\<newline>: d\<newline>\<newline>'', PeekLine = ''\<newline>'', LineOffset = 0, Advanced = []\<rparr>
     \<lparr>BlockOffset = 0\<rparr> =
   Inr (\<lparr>Source = ''t\<newline>: d\<newline>\<newline>'', PeekLine = ''\<newline>'', LineOffset = 0,
          Advanced = []\<rparr>, {Continue, HasChildren})"
proof -
  have p: "payload ([NewDefinitionList 2 None] ! 0) = DefinitionList 2 None"
    by (simp add: NewDefinitionList_def NewNode_def)
  show ?thesis
    using Continue_on_DefinitionList [OF p,
        of "\<lparr>Source = ''t\<newline>: d\<newline>   foo'', PeekLine = ''   foo'', LineOffset = 0, Advanced = []\<rparr>"
           "\<lparr>BlockOffset = 3\<rparr>"]
      Continue_on_DefinitionList [OF p,
        of "\<lparr>Source = ''t\<newline>: d\<newline> foo'', PeekLine = '' foo'', LineOffset = 0, Advanced = []\<rparr>"
           "\<lparr>BlockOffset = 1\<rparr>"]
      Continue_on_DefinitionList [OF p,
        of "\<lparr>Source = ''t\<newline>: d\<newline>\<newline>'', PeekLine = ''\<newline>'', LineOffset = 0, Advanced = []\<rparr>"
           "\<lparr>BlockOffset = 0\<rparr>"]
    by (simp add: IsBlank_def IsSpace_def IndentWidth_def IndentPosition_def)
qed

subsection \<open>Opening a list\<close>

lemmas example_defs = doc_term_def doc_list_term_def doc_list_def marker_line_def
  at_column_0_def NewNode_def NewDefinitionList_def

lemma marker_line_facts:
  "0 \<le> BlockOffset at_column_0"
  "BlockOffset at_column_0 < int (length (PeekLine marker_line))"
  "PeekLine marker_line ! nat (BlockOffset at_column_0) = CHR '':''"
  "(3::int) = fst (IndentWidth (drop (nat (BlockOffset at_column_0 + 1)) (PeekLine marker_line))
               (BlockOffset at_column_0 + 1))"
  by (simp_all add: example_defs IndentWidth_def)

text \<open>
  The store \<open>doc_term_open\<close> is what the host has after the list parser opened a
  list on \<open>doc_term\<close> and the list was appended to the document.
\<close>

lemma doc_term_open_by_Open:
  "definitionListParser_Open doc_term 0 marker_line at_column_0 =
     Inr (doc_term @ [NewDefinitionList 4 (Some 1)], Some 2, {HasChildren}) \<and>
   AppendChild (doc_term @ [NewDefinitionList 4 (Some 1)]) 0 2 = doc_term_open"
  by (simp add: definitionListParser_Open_def example_defs asDefinitionList_def
      asParagraph_def LastChild_def PreviousSibling_def IndentWidth_def Open_Offset_def
      alloc_def AppendChild_def doc_term_open_def)

lemma valid_refs_Children:
  "valid_refs h \<Longrightarrow> n < length h \<Longrightarrow> c \<in> set (Children (h ! n)) \<Longrightarrow> c < length h"
  by (auto simp: valid_refs_def list_all_length in_set_conv_nth)

lemma valid_refs_Parent:
  "valid_refs h \<Longrightarrow> n < length h \<Longrightarrow> Parent (h ! n) = Some p \<Longrightarrow> p < length h"
  by (auto simp: valid_refs_def list_all_length split: option.splits)

lemma predecessor_in_set: "predecessor x xs = Some y \<Longrightarrow> y \<in> set xs"
  by (induction x xs rule: predecessor.induct) (auto split: if_splits)

lemma successor_in_set: "successor x xs = Some y \<Longrightarrow> y \<in> set xs"
  by (induction x xs rule: successor.induct) (auto split: if_splits)

lemma LastChild_valid:
  "valid_refs h \<Longrightarrow> n < length h \<Longrightarrow> LastChild h n = Some c \<Longrightarrow> c < length h"
  by (auto simp: LastChild_def split: if_splits intro: valid_refs_Children)

lemma PreviousSibling_valid:
  assumes "valid_refs h" "n < length h" "PreviousSibling h n = Some s"
  shows "s < length h"
proof -
  from assms(3) obtain p where p: "Parent (h ! n) = Some p"
    and s: "predecessor n (Children (h ! p)) = Some s"
    by (auto simp: PreviousSibling_def split: option.splits)
  from valid_refs_Parent [OF assms(1,2) p] have "p < length h" .
  with predecessor_in_set [OF s] assms(1) show ?thesis by (blast intro: valid_refs_Children)
qed

lemma asDefinitionList_Some:
  "asDefinitionList h r = Some l \<longleftrightarrow>
     r = Some l \<and> (\<exists>off para. payload (h ! l) = DefinitionList off para)"
  by (auto simp: asDefinitionList_def split: option.splits Payload.splits)

lemma asDefinitionList_None:
  "asDefinitionList h r = None \<longleftrightarrow>
     (\<forall>l. r = Some l \<longrightarrow> (\<forall>off para. payload (h ! l) \<noteq> DefinitionList off para))"
  by (auto simp: asDefinitionList_def split: option.splits Payload.splits)

lemma asParagraph_Some:
  "asParagraph h r = Some l \<longleftrightarrow> r = Some l \<and> payload (h ! l) = Paragraph"
  by (auto simp: asParagraph_def split: option.splits)

lemma asParagraph_None:
  "asParagraph h r = None \<longleftrightarrow> (\<forall>l. r = Some l \<longrightarrow> payload (h ! l) \<noteq> Paragraph)"
  by (auto simp: asParagraph_def split: option.splits)

lemma set_list_fields:
  assumes "l < length h" "payload (h ! l) = DefinitionList off para"
  shows "set_TemporaryParagraph (set_Offset h l w) l para' =
           h[l := (h ! l)\<lparr>payload := DefinitionList w para'\<rparr>]"
  using assms by (simp add: set_Offset_def set_TemporaryParagraph_def)


lemma Open_when_matches:
  assumes "asDefinitionList h (Some parent) = None"
    and "0 \<le> BlockOffset pc" "BlockOffset pc < int (length (PeekLine reader))"
    and "PeekLine reader ! nat (BlockOffset pc) = CHR '':''"
    and "w = fst (IndentWidth (drop (nat (BlockOffset pc + 1)) (PeekLine reader))
               (BlockOffset pc + 1))"
    and "1 \<le> w"
  shows "definitionListParser_Open h parent reader pc =
     (case asParagraph h (LastChild h parent) of
           Some para \<Rightarrow>
             (case asDefinitionList h (PreviousSibling h para) of
                Some list \<Rightarrow>
                  Inr (set_TemporaryParagraph (set_Offset h list (Open_Offset w (BlockOffset pc)))
                         list (Some para),
                       Some list, {HasChildren})
              | None \<Rightarrow> Inr (h @ [NewDefinitionList (Open_Offset w (BlockOffset pc)) (Some para)],
                             Some (length h), {HasChildren}))
         | None \<Rightarrow>
             (case asDefinitionList h (LastChild h parent) of
                Some list \<Rightarrow>
                  Inr (set_TemporaryParagraph (set_Offset h list (Open_Offset w (BlockOffset pc)))
                         list None,
                       Some list, {HasChildren})
              | None \<Rightarrow> Inr (h, None, {NoChildren})))"
  using assms
  by (simp add: definitionListParser_Open_def Let_def alloc_def split: option.splits)

text \<open>
  C4. When the marker line matches, \<open>definitionListParser.Open\<close> chooses the list by
  the last child of the parent. (1) The last child is a Paragraph whose previous sibling
  is a DefinitionList: that list is returned, and the store differs only in its
  \<open>Offset\<close>, now the new offset, and its \<open>TemporaryParagraph\<close>, now the paragraph.
  (2) The last child is a Paragraph whose previous sibling is no DefinitionList: a new
  DefinitionList with the offset and the paragraph is allocated and returned, and no
  node of the store changes. (3) The last child is a DefinitionList: it is returned with
  the new offset and a nil \<open>TemporaryParagraph\<close>. The state is \<open>HasChildren\<close> in
  the three cases.
\<close>

theorem Open_three_cases:
  assumes "valid_refs h" "parent < length h"
    and "\<forall>off tp. payload (h ! parent) \<noteq> DefinitionList off tp"
    and "0 \<le> BlockOffset pc" "BlockOffset pc < int (length (PeekLine reader))"
    and "PeekLine reader ! nat (BlockOffset pc) = CHR '':''"
    and "w = fst (IndentWidth (drop (nat (BlockOffset pc + 1)) (PeekLine reader))
               (BlockOffset pc + 1))"
    and "1 \<le> w"
  shows "(LastChild h parent = Some para \<and> payload (h ! para) = Paragraph \<and>
          PreviousSibling h para = Some list \<and> payload (h ! list) = DefinitionList off tp \<longrightarrow>
            definitionListParser_Open h parent reader pc =
              Inr (h[list := (h ! list)\<lparr>payload :=
                     DefinitionList (Open_Offset w (BlockOffset pc)) (Some para)\<rparr>],
                   Some list, {HasChildren})) \<and>
         (LastChild h parent = Some para \<and> payload (h ! para) = Paragraph \<and>
          (\<forall>s. PreviousSibling h para = Some s \<longrightarrow>
               (\<forall>off tp. payload (h ! s) \<noteq> DefinitionList off tp)) \<longrightarrow>
            definitionListParser_Open h parent reader pc =
              Inr (h @ [NewDefinitionList (Open_Offset w (BlockOffset pc)) (Some para)],
                   Some (length h), {HasChildren})) \<and>
         (LastChild h parent = Some list \<and> payload (h ! list) = DefinitionList off tp \<longrightarrow>
            definitionListParser_Open h parent reader pc =
              Inr (h[list := (h ! list)\<lparr>payload :=
                     DefinitionList (Open_Offset w (BlockOffset pc)) None\<rparr>],
                   Some list, {HasChildren}))"
proof -
  have np: "asDefinitionList h (Some parent) = None"
    using assms(3) by (simp add: asDefinitionList_None)
  note eq = Open_when_matches [OF np assms(4-8)]
  show ?thesis
  proof (intro conjI impI)
    assume a: "LastChild h parent = Some para \<and> payload (h ! para) = Paragraph \<and>
          PreviousSibling h para = Some list \<and> payload (h ! list) = DefinitionList off tp"
    then have 1: "asParagraph h (LastChild h parent) = Some para"
      by (simp add: asParagraph_Some)
    from a have 2: "asDefinitionList h (PreviousSibling h para) = Some list"
      by (simp add: asDefinitionList_Some)
    from a have "para < length h" using LastChild_valid [OF assms(1,2)] by blast
    with a have l: "list < length h" using PreviousSibling_valid [OF assms(1)] by blast
    show "definitionListParser_Open h parent reader pc =
        Inr (h[list := (h ! list)\<lparr>payload :=
               DefinitionList (Open_Offset w (BlockOffset pc)) (Some para)\<rparr>],
             Some list, {HasChildren})"
      unfolding eq using 1 2 a set_list_fields [OF l] by simp
  next
    assume a: "LastChild h parent = Some para \<and> payload (h ! para) = Paragraph \<and>
          (\<forall>s. PreviousSibling h para = Some s \<longrightarrow>
               (\<forall>off tp. payload (h ! s) \<noteq> DefinitionList off tp))"
    then have 1: "asParagraph h (LastChild h parent) = Some para"
      by (simp add: asParagraph_Some)
    from a have 2: "asDefinitionList h (PreviousSibling h para) = None"
      by (simp add: asDefinitionList_None)
    show "definitionListParser_Open h parent reader pc =
        Inr (h @ [NewDefinitionList (Open_Offset w (BlockOffset pc)) (Some para)],
             Some (length h), {HasChildren})"
      unfolding eq using 1 2 by simp
  next
    assume a: "LastChild h parent = Some list \<and> payload (h ! list) = DefinitionList off tp"
    then have 1: "asParagraph h (LastChild h parent) = None"
      by (simp add: asParagraph_None)
    from a have 2: "asDefinitionList h (LastChild h parent) = Some list"
      by (simp add: asDefinitionList_Some)
    from a have l: "list < length h" using LastChild_valid [OF assms(1,2)] by blast
    show "definitionListParser_Open h parent reader pc =
        Inr (h[list := (h ! list)\<lparr>payload :=
               DefinitionList (Open_Offset w (BlockOffset pc)) None\<rparr>],
             Some list, {HasChildren})"
      unfolding eq using 1 2 a set_list_fields [OF l] by simp
  qed
qed

theorem Open_three_cases_witness:
  "definitionListParser_Open doc_list_term 0 marker_line at_column_0 =
     Inr (doc_list_term[1 := (doc_list_term ! 1)\<lparr>payload := DefinitionList 4 (Some 2)\<rparr>],
          Some 1, {HasChildren}) \<and>
   definitionListParser_Open doc_term 0 marker_line at_column_0 =
     Inr (doc_term @ [NewDefinitionList 4 (Some 1)], Some 2, {HasChildren}) \<and>
   definitionListParser_Open doc_list 0 marker_line at_column_0 =
     Inr (doc_list[1 := (doc_list ! 1)\<lparr>payload := DefinitionList 4 None\<rparr>],
          Some 1, {HasChildren})"
proof -
  have v: "valid_refs doc_list_term" "valid_refs doc_term" "valid_refs doc_list"
    by (simp_all add: valid_refs_def example_defs)
  have p: "0 < length doc_list_term" "0 < length doc_term" "0 < length doc_list"
    by (simp_all add: example_defs)
  have n: "\<forall>off tp. payload (doc_list_term ! 0) \<noteq> DefinitionList off tp"
    "\<forall>off tp. payload (doc_term ! 0) \<noteq> DefinitionList off tp"
    "\<forall>off tp. payload (doc_list ! 0) \<noteq> DefinitionList off tp"
    by (simp_all add: example_defs)
  have w: "(1::int) \<le> 3" by simp
  have o: "Open_Offset 3 (BlockOffset at_column_0) = 4"
    by (simp add: Open_Offset_def at_column_0_def)
  have a: "LastChild doc_list_term 0 = Some 2 \<and> payload (doc_list_term ! 2) = Paragraph \<and>
           PreviousSibling doc_list_term 2 = Some 1 \<and>
           payload (doc_list_term ! 1) = DefinitionList 2 None"
    by (simp add: example_defs LastChild_def PreviousSibling_def)
  have b: "LastChild doc_term 0 = Some 1 \<and> payload (doc_term ! 1) = Paragraph \<and>
           (\<forall>s. PreviousSibling doc_term 1 = Some s \<longrightarrow>
               (\<forall>off tp. payload (doc_term ! s) \<noteq> DefinitionList off tp))"
    by (simp add: example_defs LastChild_def PreviousSibling_def)
  have c: "LastChild doc_list 0 = Some 1 \<and> payload (doc_list ! 1) = DefinitionList 2 None"
    by (simp add: example_defs LastChild_def)
  have 1: "definitionListParser_Open doc_list_term 0 marker_line at_column_0 =
     Inr (doc_list_term[1 := (doc_list_term ! 1)\<lparr>payload := DefinitionList 4 (Some 2)\<rparr>],
          Some 1, {HasChildren})"
    using Open_three_cases [OF v(1) p(1) n(1) marker_line_facts w,
        where para = 2 and list = 1 and off = 2 and tp = None] a o
    by simp
  have 2: "definitionListParser_Open doc_term 0 marker_line at_column_0 =
     Inr (doc_term @ [NewDefinitionList 4 (Some 1)], Some 2, {HasChildren})"
    using Open_three_cases [OF v(2) p(2) n(2) marker_line_facts w,
        where para = 1 and list = 0 and off = 0 and tp = None] b o
    by (simp add: doc_term_def)
  have 3: "definitionListParser_Open doc_list 0 marker_line at_column_0 =
     Inr (doc_list[1 := (doc_list ! 1)\<lparr>payload := DefinitionList 4 None\<rparr>],
          Some 1, {HasChildren})"
    using Open_three_cases [OF v(3) p(3) n(3) marker_line_facts w,
        where para = 0 and list = 1 and off = 2 and tp = None] c o
    by simp
  from 1 2 3 show ?thesis by simp
qed

text \<open>
  C6. When \<open>definitionListParser.Open\<close> returns a list, the marker \<open>:\<close> is at the
  block offset \<open>pos\<close>, the indentation width \<open>w\<close> of the text after the marker,
  counted from column \<open>pos + 1\<close>, is at least 1, and the \<open>Offset\<close> of the returned
  list is \<open>w + pos + 1\<close>, with 5 in place of \<open>w\<close> when \<open>w \<ge> 8\<close>.
\<close>

theorem Open_continuation_offset:
  assumes "valid_refs h" "parent < length h"
    and "definitionListParser_Open h parent reader pc = Inr (h', Some list, st)"
    and "w = fst (IndentWidth (drop (nat (BlockOffset pc + 1)) (PeekLine reader))
               (BlockOffset pc + 1))"
  shows "1 \<le> w \<and> PeekLine reader ! nat (BlockOffset pc) = CHR '':'' \<and>
         (\<exists>para. payload (h' ! list) =
            DefinitionList ((if 8 \<le> w then 5 else w) + BlockOffset pc + 1) para)"
proof -
  from assms(3) have np: "asDefinitionList h (Some parent) = None"
    and r: "0 \<le> BlockOffset pc" "BlockOffset pc < int (length (PeekLine reader))"
    and c: "PeekLine reader ! nat (BlockOffset pc) = CHR '':''"
    and w: "1 \<le> w"
    unfolding assms(4)
    by (auto simp: definitionListParser_Open_def Let_def split: if_splits)
  note eq = Open_when_matches [OF np r c assms(4) w]
  have o: "Open_Offset w (BlockOffset pc) = (if 8 \<le> w then 5 else w) + BlockOffset pc + 1"
    by (simp add: Open_Offset_def)
  show ?thesis
  proof (cases "asParagraph h (LastChild h parent)")
    case (Some para)
    then have pl: "para < length h"
      using LastChild_valid [OF assms(1,2)] by (simp add: asParagraph_Some)
    show ?thesis
    proof (cases "asDefinitionList h (PreviousSibling h para)")
      case None
      with Some assms(3) eq have "h' = h @ [NewDefinitionList (Open_Offset w (BlockOffset pc)) (Some para)]"
        "list = length h" by auto
      then show ?thesis using w c o by (simp add: NewDefinitionList_def NewNode_def)
    next
      case (Some l)
      then obtain off tp where l: "PreviousSibling h para = Some l"
          "payload (h ! l) = DefinitionList off tp"
        by (auto simp: asDefinitionList_Some)
      have ll: "l < length h" using PreviousSibling_valid [OF assms(1) pl l(1)] .
      from Some \<open>asParagraph h (LastChild h parent) = Some para\<close> assms(3) eq
      have "h' = set_TemporaryParagraph (set_Offset h l (Open_Offset w (BlockOffset pc))) l (Some para)"
        "list = l" by auto
      then show ?thesis using w c o ll set_list_fields [OF ll l(2)] by simp
    qed
  next
    case None
    show ?thesis
    proof (cases "asDefinitionList h (LastChild h parent)")
      case N2: None
      with None assms(3) eq show ?thesis by simp
    next
      case (Some l)
      then obtain off tp where l: "LastChild h parent = Some l"
          "payload (h ! l) = DefinitionList off tp"
        by (auto simp: asDefinitionList_Some)
      have ll: "l < length h" using LastChild_valid [OF assms(1,2) l(1)] .
      from Some None assms(3) eq
      have "h' = set_TemporaryParagraph (set_Offset h l (Open_Offset w (BlockOffset pc))) l None"
        "list = l" by auto
      then show ?thesis using w c o ll set_list_fields [OF ll l(2)] by simp
    qed
  qed
qed

theorem Open_continuation_offset_witness:
  "definitionListParser_Open doc_term 0 marker_line at_column_0 =
     Inr (doc_term @ [NewDefinitionList 4 (Some 1)], Some 2, {HasChildren}) \<and>
   (\<exists>para. payload ((doc_term @ [NewDefinitionList 4 (Some 1)]) ! 2) = DefinitionList 4 para)"
proof -
  have v: "valid_refs doc_term" by (simp add: valid_refs_def example_defs)
  have p: "0 < length doc_term" by (simp add: example_defs)
  have r: "definitionListParser_Open doc_term 0 marker_line at_column_0 =
     Inr (doc_term @ [NewDefinitionList 4 (Some 1)], Some 2, {HasChildren})"
    by (simp add: definitionListParser_Open_def example_defs asDefinitionList_def
        asParagraph_def LastChild_def PreviousSibling_def IndentWidth_def Open_Offset_def
        alloc_def)
  show ?thesis
    using Open_continuation_offset [OF v p r marker_line_facts(4)] r
    by (simp add: at_column_0_def)
qed

text \<open>
  C7. \<open>definitionListParser.Open\<close> answers no match (a nil node with
  \<open>NoChildren\<close>, the store as it was) in exactly four cases: the parent is a
  DefinitionList; or there is a byte at the block offset and it is not \<open>:\<close>; or the
  indentation width after the marker is less than 1; or the last child of the parent
  is neither a Paragraph nor a DefinitionList (or there is none). The answer is a
  returned value, and whenever the returned node is nil the store is unchanged.
\<close>

theorem Open_no_match:
  "(definitionListParser_Open h parent reader pc = Inr (h, None, {NoChildren}) \<longleftrightarrow>
      (\<exists>off tp. payload (h ! parent) = DefinitionList off tp) \<or>
      0 \<le> BlockOffset pc \<and> BlockOffset pc < int (length (PeekLine reader)) \<and>
      (PeekLine reader ! nat (BlockOffset pc) \<noteq> CHR '':'' \<or>
       fst (IndentWidth (drop (nat (BlockOffset pc + 1)) (PeekLine reader))
              (BlockOffset pc + 1)) < 1 \<or>
       (\<forall>l. LastChild h parent = Some l \<longrightarrow>
            payload (h ! l) \<noteq> Paragraph \<and>
            (\<forall>off tp. payload (h ! l) \<noteq> DefinitionList off tp)))) \<and>
   (\<forall>h' st. definitionListParser_Open h parent reader pc = Inr (h', None, st) \<longrightarrow>
      h' = h \<and> st = {NoChildren})"
proof -
  let ?list = "\<exists>off tp. payload (h ! parent) = DefinitionList off tp"
  let ?range = "0 \<le> BlockOffset pc \<and> BlockOffset pc < int (length (PeekLine reader))"
  let ?marker = "PeekLine reader ! nat (BlockOffset pc) = CHR '':''"
  let ?w = "fst (IndentWidth (drop (nat (BlockOffset pc + 1)) (PeekLine reader))
               (BlockOffset pc + 1))"
  have np: "asDefinitionList h (Some parent) = None \<longleftrightarrow> \<not> ?list"
    by (auto simp: asDefinitionList_None)
  consider (list) ?list | (panic) "\<not> ?list" "\<not> ?range"
    | (decline) "\<not> ?list" ?range "\<not> ?marker \<or> ?w < 1"
    | (matches) "\<not> ?list" ?range ?marker "1 \<le> ?w"
    by force
  then show ?thesis
  proof cases
    case list
    then have "definitionListParser_Open h parent reader pc = Inr (h, None, {NoChildren})"
      using np by (simp add: definitionListParser_Open_def)
    then show ?thesis using list by simp
  next
    case panic
    then have "definitionListParser_Open h parent reader pc = Inl IndexOutOfRange"
      using np by (auto simp: definitionListParser_Open_def Let_def)
    then show ?thesis using panic by auto
  next
    case decline
    then have "definitionListParser_Open h parent reader pc = Inr (h, None, {NoChildren})"
      using np by (auto simp: definitionListParser_Open_def Let_def)
    then show ?thesis using decline by auto
  next
    case matches
    have n: "asDefinitionList h (Some parent) = None" using matches(1) np by simp
    have r: "0 \<le> BlockOffset pc" "BlockOffset pc < int (length (PeekLine reader))"
      using matches(2) by simp_all
    note eq = Open_when_matches [OF n r matches(3) refl matches(4)]
    have l: "(asParagraph h (LastChild h parent) = None \<and>
              asDefinitionList h (LastChild h parent) = None) \<longleftrightarrow>
             (\<forall>l. LastChild h parent = Some l \<longrightarrow>
                   payload (h ! l) \<noteq> Paragraph \<and>
                   (\<forall>off tp. payload (h ! l) \<noteq> DefinitionList off tp))"
      by (auto simp: asParagraph_None asDefinitionList_None)
    show ?thesis
      unfolding eq l [symmetric] using matches
      by (auto split: option.splits)
  qed
qed

theorem Open_no_match_witness:
  "definitionListParser_Open doc_term 1 marker_line at_column_0 =
     Inr (doc_term, None, {NoChildren})"
proof -
  have "\<forall>l. LastChild doc_term 1 = Some l \<longrightarrow>
                 payload (doc_term ! l) \<noteq> Paragraph \<and>
                 (\<forall>off tp. payload (doc_term ! l) \<noteq> DefinitionList off tp)"
    by (simp add: example_defs LastChild_def)
  then show ?thesis
    using Open_no_match [of doc_term 1 marker_line at_column_0] marker_line_facts(1,2)
    by blast
qed

section \<open>Properties of the description parser\<close>

subsection \<open>Opening a description\<close>

text \<open>
  The loop over the lines of the pending paragraph, in closed form: the store grows by
  one term per line, in the order of the lines, and the list gets the new references
  at the end of its children.
\<close>

lemma Open_terms_step:
  assumes "list < length h"
  shows "(let (h1, term) = alloc h NewDefinitionTerm;
              h2 = SetLines h1 term (Lines (h1 ! term) @ [TrimRightSpace segment source])
          in AppendChild h2 list term) =
         (h @ [NewDefinitionTerm\<lparr>Parent := Some list,
                                  Lines := [TrimRightSpace segment source]\<rparr>])
           [list := (h ! list)\<lparr>Children := Children (h ! list) @ [length h]\<rparr>]"
  using assms
  by (simp add: alloc_def SetLines_def AppendChild_def NewDefinitionTerm_def NewNode_def
      nth_append list_update_append Let_def)

lemma Open_terms_closed:
  assumes "list < length h"
  shows "Open_terms h list lines source =
         (h @ map (\<lambda>segment. NewDefinitionTerm\<lparr>Parent := Some list,
                      Lines := [TrimRightSpace segment source]\<rparr>) lines)
           [list := (h ! list)\<lparr>Children :=
              Children (h ! list) @ [length h ..< length h + length lines]\<rparr>]"
  using assms
proof (induction lines arbitrary: h)
  case Nil
  then show ?case by simp
next
  case (Cons segment lines)
  let ?T = "\<lambda>segment. NewDefinitionTerm\<lparr>Parent := Some list,
                      Lines := [TrimRightSpace segment source]\<rparr>"
  let ?X = "(h ! list)\<lparr>Children := Children (h ! list) @ [length h]\<rparr>"
  let ?h = "(h @ [?T segment])[list := ?X]"
  have step: "Open_terms h list (segment # lines) source = Open_terms ?h list lines source"
    using Open_terms_step [OF Cons.prems, of segment source]
    by (simp add: Let_def split: prod.splits)
  have l: "list < length ?h" using Cons.prems by simp
  have u: "[length h ..< length h + length (segment # lines)] =
           length h # [Suc (length h) ..< Suc (length h) + length lines]"
    by (subst upt_rec) simp
  have a: "?h @ map ?T lines = (h @ ?T segment # map ?T lines)[list := ?X]"
    using Cons.prems by (simp add: list_update_append)
  show ?case
    unfolding step Cons.IH [OF l] a u
    using Cons.prems by simp
qed

lemma Open_on_marker:
  assumes "0 \<le> BlockOffset pc" "BlockOffset pc < int (length (PeekLine reader))"
    and "PeekLine reader ! nat (BlockOffset pc) = CHR '':''"
    and "payload (h ! parent) = DefinitionList off para"
  shows "definitionDescriptionParser_Open h parent reader pc =
     (let h = set_TemporaryParagraph h parent None
      in case para of
           None \<Rightarrow> Open_finish h reader (PeekLine reader) (BlockOffset pc) off
         | Some p \<Rightarrow>
             let h = Open_terms h parent (Lines (h ! p)) (Source reader)
             in (case Parent (h ! p) of
                   None \<Rightarrow> Inl NilDereference
                 | Some q \<Rightarrow>
                     Open_finish (RemoveChild h q p) reader (PeekLine reader)
                       (BlockOffset pc) off))"
  using assms by (simp add: definitionDescriptionParser_Open_def Let_def)

lemma Open_finish_eq:
  "Open_finish h reader line pos off =
     Inr (h @ [NewDefinitionDescription],
          reader\<lparr>Advanced := Advanced reader @
             [IndentPosition (drop (nat (pos + 1)) line) (pos + 1) (off - pos - 1)]\<rparr>,
          Some (length h), {HasChildren})"
  by (simp add: Open_finish_def alloc_def AdvanceAndSetPadding_def split: prod.splits)

text \<open>
  Inside the source, the text of the trimmed segment is the text of the segment without
  its trailing whitespace.
\<close>

lemma rev_dropWhile_rev:
  "rev (dropWhile P (rev v)) = take (length v - length (takeWhile P (rev v))) v"
proof -
  have "dropWhile P (rev v) = drop (length (takeWhile P (rev v))) (rev v)"
    by (rule dropWhile_eq_drop)
  then show ?thesis by (simp add: rev_drop)
qed

lemma Value_TrimRightSpace:
  assumes "0 \<le> Start t" "Start t \<le> Stop t" "Stop t \<le> int (length buffer)"
  shows "Value (TrimRightSpace t buffer) buffer =
         rev (dropWhile IsSpace (rev (Value t buffer)))"
proof -
  define v where "v = take (nat (Stop t - Start t)) (drop (nat (Start t)) buffer)"
  define l where "l = length (takeWhile IsSpace (rev v))"
  define pad where "pad = replicate (nat (Padding t)) CHR '' ''"
  have lv: "length v = nat (Stop t - Start t)" using assms by (simp add: v_def)
  have ll: "l \<le> length v" unfolding l_def using length_takeWhile_le [of IsSpace "rev v"] by simp
  have V: "Value t buffer = pad @ v" by (simp add: Value_def v_def pad_def)
  have sp: "\<forall>c \<in> set pad. IsSpace c" by (simp add: pad_def IsSpace_def)
  show ?thesis
  proof (cases "l = length v")
    case True
    then have "takeWhile IsSpace (rev v) = rev v"
      unfolding l_def by (metis length_rev takeWhile_eq_take take_all order_refl)
    then have all: "\<forall>c \<in> set v. IsSpace c"
      by (metis set_rev set_takeWhileD)
    have "dropWhile IsSpace (rev (pad @ v)) = []"
      using all sp by auto
    moreover have "Value (TrimRightSpace t buffer) buffer = []"
      using True by (simp add: TrimRightSpace_def TrimRightSpaceLength_def Value_def Let_def
          v_def [symmetric] l_def [symmetric])
    ultimately show ?thesis by (simp add: V)
  next
    case False
    then have lt: "l < length v" using ll by simp
    have ex: "\<exists>c \<in> set (rev v). \<not> IsSpace c"
    proof (rule ccontr)
      assume "\<not> ?thesis"
      then have tw: "takeWhile IsSpace (rev v) = rev v" by simp
      have "length (takeWhile IsSpace (rev v)) = length (rev v)" by (simp only: tw)
      then have "l = length v" unfolding l_def by (simp only: length_rev)
      then show False using lt by simp
    qed
    have "dropWhile IsSpace (rev (pad @ v)) = dropWhile IsSpace (rev v) @ rev pad"
      using ex by auto
    then have R: "rev (dropWhile IsSpace (rev (Value t buffer))) = pad @ take (length v - l) v"
      by (simp add: V rev_dropWhile_rev l_def)
    have T: "TrimRightSpace t buffer =
        \<lparr>Start = Start t, Stop = Stop t - int l, Padding = Padding t\<rparr>"
      using False by (simp add: TrimRightSpace_def TrimRightSpaceLength_def Let_def
          v_def [symmetric] l_def [symmetric])
    have n: "nat (Stop t - int l - Start t) = length v - l" using lv lt by linarith
    have "take (length v - l) (drop (nat (Start t)) buffer) = take (length v - l) v"
      by (simp add: v_def min_def lv [unfolded v_def, simplified])
    then have "Value (TrimRightSpace t buffer) buffer = pad @ take (length v - l) v"
      unfolding T by (simp add: Value_def n pad_def)
    with R show ?thesis by simp
  qed
qed

text \<open>
  C5. \<open>definitionDescriptionParser.Open\<close> on a DefinitionList, at its trigger: the
  byte at the block offset is the marker \<open>:\<close>, as it is on the line on which the
  list parser has just set \<open>TemporaryParagraph\<close>. When \<open>TemporaryParagraph\<close> is
  the paragraph \<open>p\<close>, a child of \<open>q\<close>: exactly one DefinitionTerm per line of
  \<open>p\<close> is appended to the children of the list, in the order of the lines, each
  holding that line with trailing whitespace trimmed; \<open>p\<close> is then detached, so
  that it has no parent afterwards and is no child of \<open>q\<close>; the
  \<open>TemporaryParagraph\<close> of the list is nil after the call; the new description
  comes last; every other node is as it was. When \<open>TemporaryParagraph\<close> is nil, no
  term is created and no node is detached: the store only grows by the new
  description.
\<close>

theorem description_Open_terms:
  assumes "0 \<le> BlockOffset pc" "BlockOffset pc < int (length (PeekLine reader))"
    and "PeekLine reader ! nat (BlockOffset pc) = CHR '':''"
  shows "(payload (h ! parent) = DefinitionList off None \<longrightarrow>
            (\<exists>reader'. definitionDescriptionParser_Open h parent reader pc =
               Inr (h @ [NewDefinitionDescription], reader', Some (length h), {HasChildren}))) \<and>
         (parent < length h \<and> payload (h ! parent) = DefinitionList off (Some p) \<and>
          p < length h \<and> payload (h ! p) = Paragraph \<and>
          Parent (h ! p) = Some q \<and> q < length h \<longrightarrow>
            (\<exists>h' reader'.
               definitionDescriptionParser_Open h parent reader pc =
                 Inr (h', reader', Some (length h + length (Lines (h ! p))), {HasChildren}) \<and>
               length h' = length h + length (Lines (h ! p)) + 1 \<and>
               Children (h' ! parent) =
                 (if q = parent then removeAll p (Children (h ! parent))
                  else Children (h ! parent)) @
                 [length h ..< length h + length (Lines (h ! p))] \<and>
               (\<forall>i < length (Lines (h ! p)).
                  h' ! (length h + i) =
                    NewDefinitionTerm\<lparr>Parent := Some parent,
                      Lines := [TrimRightSpace (Lines (h ! p) ! i) (Source reader)]\<rparr>) \<and>
               (\<forall>i < length (Lines (h ! p)).
                  0 \<le> Start (Lines (h ! p) ! i) \<and> Start (Lines (h ! p) ! i) \<le> Stop (Lines (h ! p) ! i) \<and>
                  Stop (Lines (h ! p) ! i) \<le> int (length (Source reader)) \<longrightarrow>
                  map (\<lambda>t. Value t (Source reader)) (Lines (h' ! (length h + i))) =
                    [rev (dropWhile IsSpace (rev (Value (Lines (h ! p) ! i) (Source reader))))]) \<and>
               Parent (h' ! p) = None \<and>
               p \<notin> set (Children (h' ! q)) \<and>
               payload (h' ! parent) = DefinitionList off None \<and>
               h' ! (length h + length (Lines (h ! p))) = NewDefinitionDescription \<and>
               (\<forall>n < length h. n \<noteq> parent \<and> n \<noteq> p \<and> n \<noteq> q \<longrightarrow> h' ! n = h ! n)))"
proof (intro conjI impI)
  assume a: "payload (h ! parent) = DefinitionList off None"
  have e: "(h ! parent)\<lparr>payload := DefinitionList off None\<rparr> = h ! parent"
    using a by (cases "h ! parent") simp
  have "set_TemporaryParagraph h parent None = h"
    by (simp only: set_TemporaryParagraph_def a Payload.case e list_update_id)
  then show "\<exists>reader'. definitionDescriptionParser_Open h parent reader pc =
      Inr (h @ [NewDefinitionDescription], reader', Some (length h), {HasChildren})"
    unfolding Open_on_marker [OF assms a] by (simp add: Open_finish_eq)
next
  assume a: "parent < length h \<and> payload (h ! parent) = DefinitionList off (Some p) \<and>
          p < length h \<and> payload (h ! p) = Paragraph \<and>
          Parent (h ! p) = Some q \<and> q < length h"
  then have par: "parent < length h" and pl: "payload (h ! parent) = DefinitionList off (Some p)"
    and p: "p < length h" and pp: "payload (h ! p) = Paragraph"
    and q: "Parent (h ! p) = Some q" "q < length h" by simp_all
  have ne: "p \<noteq> parent" using pl pp by auto
  let ?ls = "Lines (h ! p)"
  let ?T = "\<lambda>segment. NewDefinitionTerm\<lparr>Parent := Some parent,
                      Lines := [TrimRightSpace segment (Source reader)]\<rparr>"
  let ?L = "(h ! parent)\<lparr>payload := DefinitionList off None\<rparr>"
  let ?new = "[length h ..< length h + length ?ls]"
  define h1 where "h1 = set_TemporaryParagraph h parent None"
  define h2 where "h2 = Open_terms h1 parent (Lines (h1 ! p)) (Source reader)"
  define h3 where "h3 = RemoveChild h2 q p"
  have h1: "h1 = h[parent := ?L]"
    using pl by (simp add: h1_def set_TemporaryParagraph_def)
  have l1: "length h1 = length h" "Lines (h1 ! p) = ?ls" "h1 ! parent = ?L"
    using ne par by (simp_all add: h1)
  have h2: "h2 = (h1 @ map ?T ?ls)[parent := ?L\<lparr>Children := Children (h ! parent) @ ?new\<rparr>]"
    unfolding h2_def using Open_terms_closed [of parent h1 ?ls "Source reader"] par l1
    by simp
  have len2: "length h2 = length h + length ?ls" by (simp add: h2 l1)
  have old2: "\<And>n. n < length h \<Longrightarrow> n \<noteq> parent \<Longrightarrow> h2 ! n = h ! n"
    by (simp add: h2 h1 nth_append)
  have par2: "h2 ! parent = ?L\<lparr>Children := Children (h ! parent) @ ?new\<rparr>"
    using par by (simp add: h2 l1)
  have new2: "\<And>i. i < length ?ls \<Longrightarrow> h2 ! (length h + i) = ?T (?ls ! i)"
    using par by (simp add: h2 l1 nth_append)
  have p2: "h2 ! p = h ! p" using old2 [OF p ne] .
  then have q2: "Parent (h2 ! p) = Some q" using q by simp
  have h3: "h3 = (h2[q := (h2 ! q)\<lparr>Children := removeAll p (Children (h2 ! q))\<rparr>])
                   [p := ((h2[q := (h2 ! q)\<lparr>Children := removeAll p (Children (h2 ! q))\<rparr>]) ! p)
                            \<lparr>Parent := None\<rparr>]"
    unfolding h3_def RemoveChild_def using q2 by (simp add: Let_def)
  have len3: "length h3 = length h + length ?ls" by (simp add: h3 len2)
  have run: "definitionDescriptionParser_Open h parent reader pc =
      Open_finish h3 reader (PeekLine reader) (BlockOffset pc) off"
    unfolding Open_on_marker [OF assms pl] h3_def h2_def h1_def using q2
    by (simp add: Let_def h2_def [symmetric] h1_def [symmetric])
  let ?h' = "h3 @ [NewDefinitionDescription]"
  have r: "\<exists>reader'. definitionDescriptionParser_Open h parent reader pc =
      Inr (?h', reader', Some (length h + length ?ls), {HasChildren})"
    unfolding run Open_finish_eq len3 by blast
  have c1: "length ?h' = length h + length ?ls + 1" by (simp add: len3)
  have pnew: "p \<notin> set ?new" using p by simp
  have c2: "Children (?h' ! parent) =
      (if q = parent then removeAll p (Children (h ! parent)) else Children (h ! parent)) @ ?new"
    using par ne pnew len2 len3 par2
    by (simp add: nth_append h3 nth_list_update)
  have c3: "\<forall>i < length ?ls. ?h' ! (length h + i) = ?T (?ls ! i)"
    using p q(2) len2 len3 new2 by (simp add: nth_append h3 nth_list_update)
  have c3': "\<forall>i < length ?ls.
                  0 \<le> Start (?ls ! i) \<and> Start (?ls ! i) \<le> Stop (?ls ! i) \<and>
                  Stop (?ls ! i) \<le> int (length (Source reader)) \<longrightarrow>
                  map (\<lambda>t. Value t (Source reader)) (Lines (?h' ! (length h + i))) =
                    [rev (dropWhile IsSpace (rev (Value (?ls ! i) (Source reader))))]"
    using c3 by (simp add: Value_TrimRightSpace)
  have c4: "Parent (?h' ! p) = None"
    using p len2 len3 p2 q by (simp add: nth_append h3 nth_list_update)
  have c5: "p \<notin> set (Children (?h' ! q))"
    using q(2) len2 len3 by (simp add: nth_append h3 nth_list_update)
  have c6: "payload (?h' ! parent) = DefinitionList off None"
    using par ne q(2) len2 len3 par2 by (auto simp add: nth_append h3 nth_list_update)
  have c7: "?h' ! (length h + length ?ls) = NewDefinitionDescription"
    using len3 by (simp add: nth_append)
  have c8: "\<forall>n < length h. n \<noteq> parent \<and> n \<noteq> p \<and> n \<noteq> q \<longrightarrow> ?h' ! n = h ! n"
    using q(2) len2 len3 old2 by (simp add: nth_append h3 nth_list_update)
  from r c1 c2 c3 c3' c4 c5 c6 c7 c8
  show "\<exists>h' reader'.
               definitionDescriptionParser_Open h parent reader pc =
                 Inr (h', reader', Some (length h + length (Lines (h ! p))), {HasChildren}) \<and>
               length h' = length h + length (Lines (h ! p)) + 1 \<and>
               Children (h' ! parent) =
                 (if q = parent then removeAll p (Children (h ! parent))
                  else Children (h ! parent)) @
                 [length h ..< length h + length (Lines (h ! p))] \<and>
               (\<forall>i < length (Lines (h ! p)).
                  h' ! (length h + i) =
                    NewDefinitionTerm\<lparr>Parent := Some parent,
                      Lines := [TrimRightSpace (Lines (h ! p) ! i) (Source reader)]\<rparr>) \<and>
               (\<forall>i < length (Lines (h ! p)).
                  0 \<le> Start (Lines (h ! p) ! i) \<and> Start (Lines (h ! p) ! i) \<le> Stop (Lines (h ! p) ! i) \<and>
                  Stop (Lines (h ! p) ! i) \<le> int (length (Source reader)) \<longrightarrow>
                  map (\<lambda>t. Value t (Source reader)) (Lines (h' ! (length h + i))) =
                    [rev (dropWhile IsSpace (rev (Value (Lines (h ! p) ! i) (Source reader))))]) \<and>
               Parent (h' ! p) = None \<and>
               p \<notin> set (Children (h' ! q)) \<and>
               payload (h' ! parent) = DefinitionList off None \<and>
               h' ! (length h + length (Lines (h ! p))) = NewDefinitionDescription \<and>
               (\<forall>n < length h. n \<noteq> parent \<and> n \<noteq> p \<and> n \<noteq> q \<longrightarrow> h' ! n = h ! n)"
    by blast
qed

theorem description_Open_terms_witness:
  "(\<exists>h' reader'.
     definitionDescriptionParser_Open doc_term_open 2 marker_line at_column_0 =
       Inr (h', reader', Some 4, {HasChildren}) \<and>
     length h' = 5 \<and>
     Children (h' ! 2) = [3] \<and>
     h' ! 3 = NewDefinitionTerm\<lparr>Parent := Some 2,
                Lines := [\<lparr>Start = 0, Stop = 4, Padding = 0\<rparr>]\<rparr> \<and>
     map (\<lambda>t. Value t (Source marker_line)) (Lines (h' ! 3)) = [''term''] \<and>
     Parent (h' ! 1) = None \<and>
     1 \<notin> set (Children (h' ! 0)) \<and>
     payload (h' ! 2) = DefinitionList 4 None \<and>
     h' ! 4 = NewDefinitionDescription) \<and>
   (\<exists>reader'.
      definitionDescriptionParser_Open doc_list 1 marker_line at_column_0 =
        Inr (doc_list @ [NewDefinitionDescription], reader', Some 2, {HasChildren}))"
  (is "?pending \<and> ?nil")
proof -
  have n: "payload (doc_list ! 1) = DefinitionList 2 None" "length doc_list = 2"
    by (simp_all add: doc_list_def NewNode_def NewDefinitionList_def)
  have nil: ?nil
    using description_Open_terms [OF marker_line_facts(1-3),
        where h = doc_list and parent = 1 and off = 2 and p = 0 and q = 0] n
    by simp
  have a: "2 < length doc_term_open \<and>
           payload (doc_term_open ! 2) = DefinitionList 4 (Some 1) \<and>
           1 < length doc_term_open \<and> payload (doc_term_open ! 1) = Paragraph \<and>
           Parent (doc_term_open ! 1) = Some 0 \<and> 0 < length doc_term_open"
    by (simp add: doc_term_open_def NewNode_def NewDefinitionList_def)
  have l: "Lines (doc_term_open ! 1) = [\<lparr>Start = 0, Stop = 5, Padding = 0\<rparr>]"
    "Lines (doc_term_open ! Suc 0) = [\<lparr>Start = 0, Stop = 5, Padding = 0\<rparr>]"
    "length doc_term_open = 3"
    by (simp_all add: doc_term_open_def NewNode_def)
  from description_Open_terms [OF marker_line_facts(1-3),
      where h = doc_term_open and parent = 2 and off = 4 and p = 1 and q = 0] a
  obtain h' reader' where
    r: "definitionDescriptionParser_Open doc_term_open 2 marker_line at_column_0 =
          Inr (h', reader', Some (length doc_term_open + length (Lines (doc_term_open ! 1))),
               {HasChildren})"
    and 1: "length h' = length doc_term_open + length (Lines (doc_term_open ! 1)) + 1"
    and 2: "Children (h' ! 2) =
              (if (0::nat) = 2 then removeAll 1 (Children (doc_term_open ! 2))
               else Children (doc_term_open ! 2)) @
              [length doc_term_open ..<
               length doc_term_open + length (Lines (doc_term_open ! 1))]"
    and 3: "\<forall>i < length (Lines (doc_term_open ! 1)).
              h' ! (length doc_term_open + i) =
                NewDefinitionTerm\<lparr>Parent := Some 2,
                  Lines := [TrimRightSpace (Lines (doc_term_open ! 1) ! i)
                              (Source marker_line)]\<rparr>"
    and 4: "\<forall>i < length (Lines (doc_term_open ! 1)).
              0 \<le> Start (Lines (doc_term_open ! 1) ! i) \<and>
              Start (Lines (doc_term_open ! 1) ! i) \<le> Stop (Lines (doc_term_open ! 1) ! i) \<and>
              Stop (Lines (doc_term_open ! 1) ! i) \<le> int (length (Source marker_line)) \<longrightarrow>
              map (\<lambda>t. Value t (Source marker_line)) (Lines (h' ! (length doc_term_open + i))) =
                [rev (dropWhile IsSpace
                   (rev (Value (Lines (doc_term_open ! 1) ! i) (Source marker_line))))]"
    and 5: "Parent (h' ! 1) = None" "1 \<notin> set (Children (h' ! 0))"
      "payload (h' ! 2) = DefinitionList 4 None"
      "h' ! (length doc_term_open + length (Lines (doc_term_open ! 1))) =
         NewDefinitionDescription"
    by blast
  have t: "TrimRightSpace \<lparr>Start = 0, Stop = 5, Padding = 0\<rparr> (Source marker_line) =
           \<lparr>Start = 0, Stop = 4, Padding = 0\<rparr>"
    by (simp add: TrimRightSpace_def TrimRightSpaceLength_def marker_line_def IsSpace_def)
  have c: "Children (doc_term_open ! 2) = []"
    by (simp add: doc_term_open_def NewNode_def NewDefinitionList_def)
  have v: "Value \<lparr>Start = 0, Stop = 4, Padding = 0\<rparr> (Source marker_line) = ''term''"
    by (simp add: Value_def marker_line_def)
  have t3: "h' ! 3 = NewDefinitionTerm\<lparr>Parent := Some 2,
                Lines := [\<lparr>Start = 0, Stop = 4, Padding = 0\<rparr>]\<rparr>"
    using 3 [rule_format, of 0] by (simp add: l t)
  have "definitionDescriptionParser_Open doc_term_open 2 marker_line at_column_0 =
       Inr (h', reader', Some 4, {HasChildren})" using r by (simp add: l)
  moreover have "length h' = 5" using 1 by (simp add: l)
  moreover have "Children (h' ! 2) = [3]" using 2 by (simp add: l c)
  moreover have "map (\<lambda>t. Value t (Source marker_line)) (Lines (h' ! 3)) = [''term'']"
    using t3 v by simp
  moreover have "h' ! 4 = NewDefinitionDescription" using 5(4) by (simp add: l)
  ultimately have pending: ?pending using t3 5(1-3)
    by (auto intro!: exI [of _ h'] exI [of _ reader'])
  from pending nil show ?thesis by (rule conjI)
qed

subsection \<open>Closing a description\<close>

text \<open>
  C2. On the tight description with the two paragraphs \<open>p1\<close> and \<open>p2\<close>,
  \<open>definitionDescriptionParser.Close\<close> sets \<open>IsTight\<close> and replaces \<open>p1\<close> by a
  text block with the same lines, and then stops: \<open>p1\<close> is detached when the loop
  asks for its next sibling, so \<open>p2\<close> stays a paragraph. The claim that every child
  that is a paragraph is replaced does not hold for this run.
\<close>

theorem Close_keeps_second_paragraph:
  "definitionDescriptionParser_Close two_paragraphs 0 end_of_input at_column_0 =
     Some (Inr
       [(NewNode (DefinitionDescription True))\<lparr>Children := [3, 2]\<rparr>,
        (NewNode Paragraph)\<lparr>Lines := [\<lparr>Start = 7, Stop = 9, Padding = 0\<rparr>]\<rparr>,
        (NewNode Paragraph)\<lparr>Parent := Some 0,
           Lines := [\<lparr>Start = 13, Stop = 15, Padding = 0\<rparr>],
           HasBlankPreviousLines := True\<rparr>,
        (NewNode TextBlock)\<lparr>Parent := Some 0,
           Lines := [\<lparr>Start = 7, Stop = 9, Padding = 0\<rparr>]\<rparr>])"
  by (simp add: definitionDescriptionParser_Close_def two_paragraphs_def NewNode_def
      set_IsTight_def FirstChild_def Close_loop.simps asParagraph_def alloc_def SetLines_def
      NewTextBlock_def ReplaceChild_def NextSibling_def Close_replace_def)

lemma successor_distinct:
  "distinct (pre @ g # rest) \<Longrightarrow>
   successor g (pre @ g # rest) = (case rest of [] \<Rightarrow> None | r # _ \<Rightarrow> Some r)"
proof (induction pre)
  case Nil
  then show ?case by (cases rest) auto
next
  case (Cons a pre)
  then have "a \<noteq> g" by auto
  moreover obtain y ys where "pre @ g # rest = y # ys" by (cases pre) auto
  ultimately show ?case using Cons by auto
qed


lemma Close_replace_Parent:
  assumes "para < length h" "Parent (h ! para) = Some desc"
  shows "Parent (Close_replace h desc para ! para) = None"
  using assms
  by (simp add: Close_replace_def ReplaceChild_def SetLines_def NewTextBlock_def NewNode_def
      alloc_def nth_append Let_def)

lemma Close_loop_Paragraph:
  assumes "para < length h" "Parent (h ! para) = Some desc" "payload (h ! para) = Paragraph"
  shows "Close_loop h desc (Some para) = Some (Close_replace h desc para)"
proof -
  have n: "NextSibling (Close_replace h desc para) para = None"
    using Close_replace_Parent [OF assms(1,2)] by (simp add: NextSibling_def)
  show ?thesis
    apply (subst Close_loop.simps)
    apply (simp add: asParagraph_def assms(3) n)
    apply (subst Close_loop.simps)
    apply simp
    done
qed

lemma Close_loop_first_paragraph:
  assumes "Children (h ! desc) = pre @ g # rest" "distinct (pre @ g # rest)"
    and "\<forall>c \<in> set (g # rest). c < length h \<and> Parent (h ! c) = Some desc"
  shows "Close_loop h desc (Some g) =
         Some (case find (\<lambda>c. payload (h ! c) = Paragraph) (g # rest) of
                 None \<Rightarrow> h
               | Some para \<Rightarrow> Close_replace h desc para)"
  using assms
proof (induction rest arbitrary: pre g)
  case Nil
  show ?case
  proof (cases "payload (h ! g) = Paragraph")
    case True
    then show ?thesis using Close_loop_Paragraph [of g h desc] Nil.prems by simp
  next
    case False
    have "NextSibling h g = None"
      using Nil.prems successor_distinct [of pre g "[]"] by (simp add: NextSibling_def)
    then show ?thesis using False
      apply (subst Close_loop.simps)
      apply (simp add: asParagraph_def)
      apply (subst Close_loop.simps)
      apply simp
      done
  qed
next
  case (Cons r rest)
  show ?case
  proof (cases "payload (h ! g) = Paragraph")
    case True
    then show ?thesis using Close_loop_Paragraph [of g h desc] Cons.prems by simp
  next
    case False
    have n: "NextSibling h g = Some r"
      using Cons.prems successor_distinct [of pre g "r # rest"] by (simp add: NextSibling_def)
    have "Close_loop h desc (Some r) =
         Some (case find (\<lambda>c. payload (h ! c) = Paragraph) (r # rest) of
                 None \<Rightarrow> h
               | Some para \<Rightarrow> Close_replace h desc para)"
      using Cons.IH [of "pre @ [g]" r] Cons.prems by simp
    then show ?thesis using False n
      apply (subst Close_loop.simps)
      apply (simp add: asParagraph_def)
      done
  qed
qed

lemma Close_loop_children:
  assumes "distinct (Children (h ! desc))"
    and "\<forall>c \<in> set (Children (h ! desc)). c < length h \<and> Parent (h ! c) = Some desc"
  shows "Close_loop h desc (FirstChild h desc) =
         Some (case find (\<lambda>c. payload (h ! c) = Paragraph) (Children (h ! desc)) of
                 None \<Rightarrow> h
               | Some para \<Rightarrow> Close_replace h desc para)"
proof (cases "Children (h ! desc)")
  case Nil
  then show ?thesis
    apply (subst Close_loop.simps)
    apply (simp add: FirstChild_def)
    done
next
  case (Cons g rest)
  then have f: "FirstChild h desc = Some g" by (simp add: FirstChild_def)
  show ?thesis
    unfolding f using Close_loop_first_paragraph [of h desc "[]" g rest] assms Cons
    by simp
qed

lemma nth_update_same_field:
  assumes "f (g (h ! i)) = f (h ! i)"
  shows "f (h[i := g (h ! i)] ! n) = f (h ! n)"
proof (cases "i < length h")
  case True
  then show ?thesis using assms by (cases "n = i") simp_all
next
  case False
  then have "h[i := g (h ! i)] = h" by (simp add: list_update_beyond)
  then show ?thesis by simp
qed

text \<open>
  What \<open>definitionDescriptionParser.Close\<close> does on a description whose children are
  a proper sequence of siblings: it sets \<open>IsTight\<close>, and on a tight description it
  replaces the first child that is a paragraph, and no other.
\<close>

lemma Close_on_description:
  assumes "payload (h ! node) = DefinitionDescription t"
    and "distinct (Children (h ! node))"
    and "\<forall>c \<in> set (Children (h ! node)). c < length h \<and> Parent (h ! c) = Some node"
  shows "definitionDescriptionParser_Close h node reader pc =
     Some (Inr (if HasBlankPreviousLines (h ! node) then set_IsTight h node False
                else case find (\<lambda>c. payload (h ! c) = Paragraph) (Children (h ! node)) of
                       None \<Rightarrow> set_IsTight h node True
                     | Some para \<Rightarrow> Close_replace (set_IsTight h node True) node para))"
proof (cases "HasBlankPreviousLines (h ! node)")
  case True
  then show ?thesis using assms(1) by (simp add: definitionDescriptionParser_Close_def)
next
  case False
  let ?h = "set_IsTight h node True"
  have ch: "\<And>n. Children (?h ! n) = Children (h ! n)" "\<And>n. Parent (?h ! n) = Parent (h ! n)"
    "length ?h = length h"
    unfolding set_IsTight_def
    by (simp_all add: nth_update_same_field [where f = Children]
        nth_update_same_field [where f = Parent])
  have pa: "\<And>c. (payload (?h ! c) = Paragraph) = (payload (h ! c) = Paragraph)"
    unfolding set_IsTight_def
    by (rule nth_update_same_field [where f = "\<lambda>n. payload n = Paragraph"])
      (simp add: assms(1))
  have "Close_loop ?h node (FirstChild ?h node) =
         Some (case find (\<lambda>c. payload (?h ! c) = Paragraph) (Children (?h ! node)) of
                 None \<Rightarrow> ?h
               | Some para \<Rightarrow> Close_replace ?h node para)"
    using assms(2,3) by (intro Close_loop_children) (simp_all add: ch)
  then show ?thesis using False assms(1)
    by (simp add: definitionDescriptionParser_Close_def pa ch Let_def)
qed

section \<open>The node kinds the hooks assume\<close>

lemma Open_terms_Parent:
  assumes "list < length h" "p < length h"
  shows "Parent (Open_terms h list lines source ! p) = Parent (h ! p)"
  unfolding Open_terms_closed [OF assms(1)] using assms
  by (cases "p = list") (simp_all add: nth_append)

lemma description_Open_no_panic:
  assumes "payload (h ! node) = DefinitionList off tp" "node < length h"
    and "0 \<le> BlockOffset pc" "BlockOffset pc < int (length (PeekLine reader))"
    and "\<forall>p. tp = Some p \<longrightarrow> p < length h \<and> Parent (h ! p) \<noteq> None"
  shows "\<exists>r. definitionDescriptionParser_Open h node reader pc = Inr r"
proof (cases "PeekLine reader ! nat (BlockOffset pc) = CHR '':''")
  case False
  then show ?thesis using assms(3,4) by (simp add: definitionDescriptionParser_Open_def)
next
  case True
  note eq = Open_on_marker [OF assms(3,4) True assms(1)]
  show ?thesis
  proof (cases tp)
    case None
    then show ?thesis unfolding eq by (simp add: Open_finish_eq Let_def)
  next
    case (Some p)
    let ?h1 = "set_TemporaryParagraph h node None"
    have l1: "length ?h1 = length h" by (simp add: set_TemporaryParagraph_def)
    have p1: "Parent (?h1 ! p) = Parent (h ! p)"
      unfolding set_TemporaryParagraph_def
      by (rule nth_update_same_field [where f = Parent]) simp
    from Some assms(5) have p: "p < length h" "Parent (h ! p) \<noteq> None" by auto
    have "Parent (Open_terms ?h1 node (Lines (?h1 ! p)) (Source reader) ! p) = Parent (h ! p)"
      using Open_terms_Parent [of node ?h1 p] assms(2) p(1) l1 p1 by simp
    with p(2) obtain q
      where "Parent (Open_terms ?h1 node (Lines (?h1 ! p)) (Source reader) ! p) = Some q"
      by auto
    then show ?thesis unfolding eq using Some by (simp add: Open_finish_eq Let_def)
  qed
qed

text \<open>
  C9, as amended. With the node kinds the hooks assume: \<open>Continue\<close> on a
  DefinitionList returns; \<open>Open\<close> of the description parser on a DefinitionList
  returns when the block offset is an index of the line and the pending paragraph, if
  there is one, still has a parent; \<open>Close\<close> on a DefinitionDescription whose
  children are a proper sequence of siblings returns. With another node kind:
  \<open>Close\<close> always panics; \<open>Continue\<close> panics exactly when the line is not blank,
  and returns \<open>Continue | HasChildren\<close> on a blank line; \<open>Open\<close> of the
  description parser panics exactly when the byte at the block offset is \<open>:\<close>, and
  answers no match on any other byte.
\<close>

theorem node_kind_contract:
  "(payload (h ! node) = DefinitionList off tp \<longrightarrow>
      (\<exists>r. definitionListParser_Continue h node reader pc = Inr r)) \<and>
   (payload (h ! node) = DefinitionList off tp \<and> node < length h \<and>
    0 \<le> BlockOffset pc \<and> BlockOffset pc < int (length (PeekLine reader)) \<and>
    (\<forall>p. tp = Some p \<longrightarrow> p < length h \<and> Parent (h ! p) \<noteq> None) \<longrightarrow>
      (\<exists>r. definitionDescriptionParser_Open h node reader pc = Inr r)) \<and>
   (payload (h ! node) = DefinitionDescription t \<and> distinct (Children (h ! node)) \<and>
    (\<forall>c \<in> set (Children (h ! node)). c < length h \<and> Parent (h ! c) = Some node) \<longrightarrow>
      (\<exists>h'. definitionDescriptionParser_Close h node reader pc = Some (Inr h'))) \<and>
   ((\<forall>off tp. payload (h ! node) \<noteq> DefinitionList off tp) \<longrightarrow>
      definitionListParser_Continue h node reader pc =
        (if IsBlank (PeekLine reader) then Inr (reader, {Continue, HasChildren})
         else Inl NilDereference)) \<and>
   ((\<forall>off tp. payload (h ! node) \<noteq> DefinitionList off tp) \<and>
    0 \<le> BlockOffset pc \<and> BlockOffset pc < int (length (PeekLine reader)) \<longrightarrow>
      definitionDescriptionParser_Open h node reader pc =
        (if PeekLine reader ! nat (BlockOffset pc) = CHR '':'' then Inl NilDereference
         else Inr (h, reader, None, {NoChildren}))) \<and>
   ((\<forall>t. payload (h ! node) \<noteq> DefinitionDescription t) \<longrightarrow>
      definitionDescriptionParser_Close h node reader pc = Some (Inl InterfaceConversion))"
proof (intro conjI impI)
  assume "payload (h ! node) = DefinitionList off tp"
  then show "\<exists>r. definitionListParser_Continue h node reader pc = Inr r"
    by (simp add: definitionListParser_Continue_def Let_def split: prod.splits)
next
  assume "payload (h ! node) = DefinitionList off tp \<and> node < length h \<and>
    0 \<le> BlockOffset pc \<and> BlockOffset pc < int (length (PeekLine reader)) \<and>
    (\<forall>p. tp = Some p \<longrightarrow> p < length h \<and> Parent (h ! p) \<noteq> None)"
  then show "\<exists>r. definitionDescriptionParser_Open h node reader pc = Inr r"
    using description_Open_no_panic [of h node off tp pc reader] by blast
next
  assume "payload (h ! node) = DefinitionDescription t \<and> distinct (Children (h ! node)) \<and>
    (\<forall>c \<in> set (Children (h ! node)). c < length h \<and> Parent (h ! c) = Some node)"
  then show "\<exists>h'. definitionDescriptionParser_Close h node reader pc = Some (Inr h')"
    using Close_on_description [of h node t reader pc] by blast
next
  assume "\<forall>off tp. payload (h ! node) \<noteq> DefinitionList off tp"
  then show "definitionListParser_Continue h node reader pc =
        (if IsBlank (PeekLine reader) then Inr (reader, {Continue, HasChildren})
         else Inl NilDereference)"
    by (simp add: definitionListParser_Continue_def Let_def insert_commute
        split: Payload.splits)
next
  assume "(\<forall>off tp. payload (h ! node) \<noteq> DefinitionList off tp) \<and>
    0 \<le> BlockOffset pc \<and> BlockOffset pc < int (length (PeekLine reader))"
  then show "definitionDescriptionParser_Open h node reader pc =
        (if PeekLine reader ! nat (BlockOffset pc) = CHR '':'' then Inl NilDereference
         else Inr (h, reader, None, {NoChildren}))"
    by (simp add: definitionDescriptionParser_Open_def Let_def split: Payload.splits)
next
  assume "\<forall>t. payload (h ! node) \<noteq> DefinitionDescription t"
  then show "definitionDescriptionParser_Close h node reader pc =
      Some (Inl InterfaceConversion)"
    by (simp add: definitionDescriptionParser_Close_def split: Payload.splits)
qed

theorem node_kind_contract_witness:
  "(\<exists>r. definitionListParser_Continue doc_term_open 2 marker_line at_column_0 = Inr r) \<and>
   (\<exists>r. definitionDescriptionParser_Open doc_term_open 2 marker_line at_column_0 = Inr r) \<and>
   (\<exists>h'. definitionDescriptionParser_Close two_paragraphs 0 end_of_input at_column_0 =
            Some (Inr h')) \<and>
   definitionListParser_Continue doc_term 1 marker_line at_column_0 = Inl NilDereference \<and>
   definitionDescriptionParser_Open doc_term 1 marker_line at_column_0 = Inl NilDereference \<and>
   definitionDescriptionParser_Close doc_term 1 end_of_input at_column_0 =
     Some (Inl InterfaceConversion)"
proof -
  have a: "payload (doc_term_open ! 2) = DefinitionList 4 (Some 1)" "2 < length doc_term_open"
    "\<forall>p. Some (1::nat) = Some p \<longrightarrow>
        p < length doc_term_open \<and> Parent (doc_term_open ! p) \<noteq> None"
    by (simp_all add: doc_term_open_def NewNode_def NewDefinitionList_def)
  have b: "payload (two_paragraphs ! 0) = DefinitionDescription False"
    "distinct (Children (two_paragraphs ! 0))"
    "\<forall>c \<in> set (Children (two_paragraphs ! 0)).
        c < length two_paragraphs \<and> Parent (two_paragraphs ! c) = Some 0"
    by (simp_all add: two_paragraphs_def NewNode_def)
  have c: "\<forall>off tp. payload (doc_term ! 1) \<noteq> DefinitionList off tp"
    "\<forall>t. payload (doc_term ! 1) \<noteq> DefinitionDescription t"
    by (simp_all add: doc_term_def NewNode_def)
  have d: "\<not> IsBlank (PeekLine marker_line)"
    by (simp add: marker_line_def IsBlank_def IsSpace_def)
  show ?thesis
    using node_kind_contract [of doc_term_open 2 4 "Some 1" marker_line at_column_0]
      node_kind_contract [of two_paragraphs 0 _ _ end_of_input at_column_0 False]
      node_kind_contract [of doc_term 1 _ _ marker_line at_column_0]
      node_kind_contract [of doc_term 1 _ _ end_of_input at_column_0]
      a b c d marker_line_facts(1-3)
    by simp
qed

text \<open>
  The claim as stated fails: on a paragraph, which is not the node kind the hooks
  assume, \<open>Continue\<close> on a blank line and \<open>Open\<close> of the description parser on a
  line without marker return normally.
\<close>

theorem wrong_kind_without_panic:
  "payload (doc_term ! 1) = Paragraph \<and>
   definitionListParser_Continue doc_term 1 blank_line at_column_0 =
     Inr (blank_line, {Continue, HasChildren}) \<and>
   definitionDescriptionParser_Open doc_term 1 plain_line at_column_0 =
     Inr (doc_term, plain_line, None, {NoChildren})"
  by (simp add: doc_term_def NewNode_def definitionListParser_Continue_def blank_line_def
      IsBlank_def IsSpace_def definitionDescriptionParser_Open_def plain_line_def
      at_column_0_def insert_commute Let_def)

text \<open>
  Two panics that the node kinds do not exclude: a block offset that is no index of the
  line, and a pending paragraph without a parent.
\<close>

lemma description_Open_panics:
  "definitionDescriptionParser_Open doc_term_open 2 marker_line \<lparr>BlockOffset = - 1\<rparr> =
     Inl IndexOutOfRange"
  "definitionDescriptionParser_Open
     (doc_term_open[1 := (doc_term_open ! 1)\<lparr>Parent := None\<rparr>]) 2 marker_line at_column_0 =
     Inl NilDereference"
  by (simp_all add: definitionDescriptionParser_Open_def doc_term_open_def marker_line_def
      at_column_0_def NewNode_def NewDefinitionList_def set_TemporaryParagraph_def
      alloc_def SetLines_def AppendChild_def NewDefinitionTerm_def Let_def)

end
